theory Spec2Isabelle
  imports Main "HOL-Library.Product_Lexorder"
begin

section \<open>Strings as the plugin uses them\<close>

text \<open>
  A JavaScript string is modelled as a \<open>string\<close> (a list of 8-bit characters, read as
  the code points 0 to 255). The white space of \<open>trim\<close> and of the regular expression
  class \<open>\s\<close> is, in that range: tab, line feed, vertical tab, form feed, carriage
  return, space and the no-break space.
\<close>

definition tab :: char where
  "tab = CHR 0x09"

definition newline :: char where
  "newline = CHR 0x0A"

definition isWhiteSpace :: "char \<Rightarrow> bool" where
  "isWhiteSpace c = (c = CHR 0x09 \<or> c = CHR 0x0A \<or> c = CHR 0x0B \<or> c = CHR 0x0C
     \<or> c = CHR 0x0D \<or> c = CHR 0x20 \<or> c = CHR 0xA0)"

text \<open>\<open>s.startsWith(p)\<close>\<close>

fun startsWith :: "string \<Rightarrow> string \<Rightarrow> bool" where
  "startsWith s [] = True"
| "startsWith [] (p # ps) = False"
| "startsWith (c # cs) (p # ps) = (c = p \<and> startsWith cs ps)"

text \<open>\<open>s.contains(p)\<close> (Obsidian's name for \<open>includes\<close>): \<open>p\<close> occurs somewhere in \<open>s\<close>.\<close>

fun contains :: "string \<Rightarrow> string \<Rightarrow> bool" where
  "contains [] p = startsWith [] p"
| "contains (c # cs) p = (startsWith (c # cs) p \<or> contains cs p)"

text \<open>\<open>s.trim()\<close>\<close>

definition trim :: "string \<Rightarrow> string" where
  "trim s = rev (dropWhile isWhiteSpace (rev (dropWhile isWhiteSpace s)))"

text \<open>\<open>xs.join("\n")\<close>\<close>

fun joinLines :: "string list \<Rightarrow> string" where
  "joinLines [] = []"
| "joinLines [l] = l"
| "joinLines (l # m # ls) = l @ newline # joinLines (m # ls)"

text \<open>The lines of a text: it is cut at every line feed, so a text has at least one line.\<close>

fun splitLines :: "string \<Rightarrow> string list" where
  "splitLines [] = [[]]"
| "splitLines (c # cs) =
     (if c = newline then [] # splitLines cs
      else (c # hd (splitLines cs)) # tl (splitLines cs))"

text \<open>
  \<open>s.replace(/^(\s*)- \[ \]/, "$1" + r)\<close>: when \<open>s\<close> is a run of white space followed by
  \<open>- [ ]\<close>, the five characters of the marker are replaced by \<open>r\<close> and the white space
  is kept; any other \<open>s\<close> is returned as it is.
\<close>

definition replaceBulletTask :: "string \<Rightarrow> string \<Rightarrow> string" where
  "replaceBulletTask r s =
     (if startsWith (dropWhile isWhiteSpace s) ''- [ ]''
      then takeWhile isWhiteSpace s @ r @ drop 5 (dropWhile isWhiteSpace s)
      else s)"

section \<open>The date\<close>

text \<open>
  \<open>getLocalDateString\<close> reads the clock; the three numbers it reads are the argument
  here: \<open>getFullYear()\<close>, \<open>getMonth()\<close> (January is 0) and \<open>getDate()\<close>.
\<close>

record LocalDate =
  fullYear :: nat
  month :: nat
  date :: nat

definition digit :: "nat \<Rightarrow> char" where
  "digit d = ''0123456789'' ! d"

text \<open>\<open>String(n)\<close> of a natural number: its decimal digits.\<close>

function decimal :: "nat \<Rightarrow> string" where
  "decimal n = (if n < 10 then [digit n] else decimal (n div 10) @ [digit (n mod 10)])"
  by pat_completeness auto
termination
  by (relation "measure id") auto

text \<open>\<open>s.padStart(2, '0')\<close>\<close>

definition padStart2 :: "string \<Rightarrow> string" where
  "padStart2 s = replicate (2 - length s) (CHR ''0'') @ s"

definition getLocalDateString :: "LocalDate \<Rightarrow> string" where
  "getLocalDateString now =
     decimal (fullYear now) @ ''-'' @ padStart2 (decimal (month now + 1)) @ ''-''
       @ padStart2 (decimal (date now))"

section \<open>The host editor\<close>

text \<open>
  Modelled from the spec: the editor (Obsidian's \<open>Editor\<close>) is the host's, not this
  repository's. It is a buffer of lines addressed from 0, a cursor, and a transaction
  primitive; the model follows the contract of the specification's section 6 and its
  worked example:
  \<^item> a document has at least one line and no line contains a line feed;
  \<^item> reading a line outside the document gives the empty string and raises nothing;
  \<^item> a position whose line is past the last line denotes the end of the document, and
    a column past the end of its line denotes the end of that line;
  \<^item> the changes of one transaction all refer to the document as it was before the
    transaction; each replaces its range (or inserts at its start when it has no end)
    by its text, and insertions at one position appear in the order they were given;
  \<^item> a transaction may move the cursor (the host carries it along with the text around
    it): where the host leaves it is the field \<open>cursorAfter\<close>, a function of the
    changes, the old document and the old cursor, of which nothing is assumed;
  \<^item> \<open>setCursor\<close> stores the position it is given.
  The field \<open>applied\<close> records every transaction the editor received, the newest first.
\<close>

record EditorPosition =
  line :: int
  ch :: nat

record EditorChange =
  chText :: string
  chFrom :: EditorPosition
  chTo :: "EditorPosition option"

record Editor =
  doc :: "string list"
  cursor :: EditorPosition
  applied :: "EditorChange list list"
  cursorAfter :: "EditorChange list \<Rightarrow> string list \<Rightarrow> EditorPosition \<Rightarrow> EditorPosition"

text \<open>A host for the examples: its transactions leave the cursor at the start of the document.\<close>

definition cursorToStart :: "EditorChange list \<Rightarrow> string list \<Rightarrow> EditorPosition \<Rightarrow> EditorPosition" where
  "cursorToStart cs ls p = \<lparr>line = 0, ch = 0\<rparr>"

definition wellFormed :: "Editor \<Rightarrow> bool" where
  "wellFormed ed = (doc ed \<noteq> [] \<and> list_all (\<lambda>l. newline \<notin> set l) (doc ed))"

definition lineCount :: "Editor \<Rightarrow> int" where
  "lineCount ed = int (length (doc ed))"

definition lastLine :: "Editor \<Rightarrow> int" where
  "lastLine ed = lineCount ed - 1"

definition getLine :: "Editor \<Rightarrow> int \<Rightarrow> string" where
  "getLine ed n = (if 0 \<le> n \<and> n < lineCount ed then doc ed ! nat n else [])"

definition getCursor :: "Editor \<Rightarrow> EditorPosition" where
  "getCursor ed = cursor ed"

definition setCursor :: "EditorPosition \<Rightarrow> Editor \<Rightarrow> Editor" where
  "setCursor p ed = ed\<lparr>cursor := p\<rparr>"

text \<open>A position of the buffer as (line, column), both inside the document.\<close>

definition resolvePos :: "string list \<Rightarrow> EditorPosition \<Rightarrow> nat \<times> nat" where
  "resolvePos ls p =
     (if line p < 0 then (0, 0)
      else if int (length ls) \<le> line p then (length ls - 1, length (ls ! (length ls - 1)))
      else (nat (line p), min (ch p) (length (ls ! nat (line p)))))"

definition resolveChange :: "string list \<Rightarrow> EditorChange \<Rightarrow> (nat \<times> nat) \<times> (nat \<times> nat) \<times> string" where
  "resolveChange ls c =
     (resolvePos ls (chFrom c),
      (case chTo c of None \<Rightarrow> resolvePos ls (chFrom c) | Some p \<Rightarrow> resolvePos ls p),
      chText c)"

text \<open>Replacing the range between two positions of a list of lines by a text.\<close>

definition replaceRange :: "(nat \<times> nat) \<times> (nat \<times> nat) \<times> string \<Rightarrow> string list \<Rightarrow> string list" where
  "replaceRange c ls =
     (case c of ((l1, c1), (l2, c2), t) \<Rightarrow>
        take l1 ls @ splitLines (take c1 (ls ! l1) @ t @ drop c2 (ls ! l2)) @ drop (Suc l2) ls)"

text \<open>
  All changes refer to the old document, so they are put in the order of their
  positions (changes at one position keep the order they were given in) and carried out
  from the last to the first: no change moves the text that an earlier one refers to.
\<close>

definition applyAll :: "EditorChange list \<Rightarrow> string list \<Rightarrow> string list" where
  "applyAll cs ls = foldr replaceRange (sort_key fst (map (resolveChange ls) cs)) ls"

definition transaction :: "EditorChange list \<Rightarrow> Editor \<Rightarrow> Editor" where
  "transaction cs ed =
     ed\<lparr>doc := applyAll cs (doc ed),
        cursor := cursorAfter ed cs (doc ed) (cursor ed),
        applied := cs # applied ed\<rparr>"

section \<open>Task\<close>

record Task =
  parents :: "string list"
  task :: string
  children :: "string list"

text \<open>The constructor: parent tasks are converted to regular bullet points.\<close>

definition newTask :: "string list \<Rightarrow> string \<Rightarrow> string list \<Rightarrow> Task" where
  "newTask ps t cs = \<lparr>parents = map (replaceBulletTask ''-'') ps, task = t, children = cs\<rparr>"

definition markAsCompleted :: "Task \<Rightarrow> Task" where
  "markAsCompleted t = t\<lparr>task := replaceBulletTask ''- [x]'' (task t)\<rparr>"

definition markAsInProgress :: "Task \<Rightarrow> Task" where
  "markAsInProgress t = t\<lparr>task := replaceBulletTask ''- [/]'' (task t)\<rparr>"

definition toString :: "Task \<Rightarrow> nat \<Rightarrow> string" where
  "toString t includeParentIndex =
     (let includedParents = drop includeParentIndex (parents t)
      in if length includedParents > 0
         then joinLines includedParents @ [newline] @ task t
         else task t)"

section \<open>Markdown\<close>

record Markdown =
  editor :: Editor
  changes :: "EditorChange list"

definition newMarkdown :: "Editor \<Rightarrow> Markdown" where
  "newMarkdown ed = \<lparr>editor = ed, changes = []\<rparr>"

definition isBullet :: "Editor \<Rightarrow> int \<Rightarrow> bool" where
  "isBullet ed n = (n \<le> lastLine ed \<and> contains (getLine ed n) ''- '')"

definition isBulletTask :: "Editor \<Rightarrow> int \<Rightarrow> bool" where
  "isBulletTask ed n =
     (n \<le> lastLine ed \<and> (contains (getLine ed n) ''- [ ] '' \<or> contains (getLine ed n) ''- [x] ''))"

definition isArchiveTask :: "Editor \<Rightarrow> int \<Rightarrow> bool" where
  "isArchiveTask ed n = (isBullet ed n \<or> isBulletTask ed n)"

text \<open>The number of tabs a string starts with (\<open>match(/^\t*/)\<close>).\<close>

definition leadingTabs :: "string \<Rightarrow> nat" where
  "leadingTabs s = length (takeWhile (\<lambda>c. c = tab) s)"

definition indentLevel :: "Editor \<Rightarrow> int \<Rightarrow> nat" where
  "indentLevel ed n = leadingTabs (getLine ed n)"

text \<open>
  The inner loop of \<open>getTask\<close>: from line \<open>p\<close> upwards, the first line whose indent
  level is below \<open>cur\<close>, or \<open>-1\<close>.
\<close>

function skipUp :: "Editor \<Rightarrow> nat \<Rightarrow> int \<Rightarrow> int" where
  "skipUp ed cur p =
     (if p \<ge> 0 \<and> indentLevel ed p \<ge> cur then skipUp ed cur (p - 1) else p)"
  by pat_completeness auto
termination
  by (relation "measure (\<lambda>(ed, cur, p). nat (p + 1))") auto

text \<open>
  The outer loop of \<open>getTask\<close>, one round for every parent looked for: \<open>p\<close> is
  \<open>parentLineNumber\<close>, \<open>cur\<close> is \<open>currentIndentLevel\<close> and \<open>ps\<close> the parents found so far.
\<close>

function findParents :: "Editor \<Rightarrow> int \<Rightarrow> int \<Rightarrow> nat \<Rightarrow> string list \<Rightarrow> string list" where
  "findParents ed parentIndentLevel p cur ps =
     (if parentIndentLevel \<ge> 0 then
        (if skipUp ed cur p \<ge> 0 \<and> isBulletTask ed (skipUp ed cur p)
              \<and> int (indentLevel ed (skipUp ed cur p)) = parentIndentLevel
         then findParents ed (parentIndentLevel - 1) (skipUp ed cur p) (nat parentIndentLevel)
                (getLine ed (skipUp ed cur p) # ps)
         else ps)
      else ps)"
  by pat_completeness auto
termination
  by (relation "measure (\<lambda>(ed, parentIndentLevel, p, cur, ps). nat (parentIndentLevel + 1))") auto

definition getTask :: "Editor \<Rightarrow> int \<Rightarrow> Task option" where
  "getTask ed n =
     (if \<not> isBulletTask ed n then None
      else Some (newTask
        (findParents ed (int (indentLevel ed n) - 1) (n - 1) (indentLevel ed n) [])
        (getLine ed n) []))"

definition lineStartPosition :: "int \<Rightarrow> EditorPosition" where
  "lineStartPosition n = \<lparr>line = n, ch = 0\<rparr>"

definition lineEndPosition :: "Editor \<Rightarrow> int \<Rightarrow> EditorPosition" where
  "lineEndPosition ed n = \<lparr>line = n, ch = length (getLine ed n)\<rparr>"

definition appendAfterLine :: "int \<Rightarrow> string \<Rightarrow> Markdown \<Rightarrow> Markdown" where
  "appendAfterLine n t md =
     md\<lparr>changes := changes md @
       [\<lparr>chText = newline # t, chFrom = lineEndPosition (editor md) n, chTo = None\<rparr>]\<rparr>"

definition appendToEnd :: "string \<Rightarrow> Markdown \<Rightarrow> Markdown" where
  "appendToEnd t md = appendAfterLine (lastLine (editor md)) t md"

definition replaceLine :: "int \<Rightarrow> string \<Rightarrow> Markdown \<Rightarrow> Markdown" where
  "replaceLine n t md =
     md\<lparr>changes := changes md @
       [\<lparr>chText = t, chFrom = lineStartPosition n, chTo = Some (lineEndPosition (editor md) n)\<rparr>]\<rparr>"

text \<open>\<open>deleteLine\<close> with no second argument, as it is called.\<close>

definition deleteLine :: "int \<Rightarrow> Markdown \<Rightarrow> Markdown" where
  "deleteLine fromLine md =
     (let startPosition =
            (if fromLine = 0 then lineStartPosition 0
             else lineEndPosition (editor md) (fromLine - 1));
          endPosition = lineEndPosition (editor md) fromLine
      in md\<lparr>changes := changes md @
            [\<lparr>chText = [], chFrom = startPosition, chTo = Some endPosition\<rparr>]\<rparr>)"

definition applyChanges :: "Markdown \<Rightarrow> Markdown" where
  "applyChanges md = md\<lparr>editor := transaction (changes md) (editor md)\<rparr>"

section \<open>Comparing tasks\<close>

text \<open>The loop of \<open>stripTask\<close> over its patterns: the first one that matches is cut off.\<close>

fun stripPatterns :: "string list \<Rightarrow> string \<Rightarrow> string" where
  "stripPatterns [] t = t"
| "stripPatterns (p # ps) t = (if startsWith t p then drop (length p) t else stripPatterns ps t)"

definition stripTask :: "string \<Rightarrow> string" where
  "stripTask t = stripPatterns [''- [ ] '', ''- [x] '', ''- ''] (trim t)"

definition isSameTask :: "string \<Rightarrow> string \<Rightarrow> bool" where
  "isSameTask task1 task2 = (stripTask task1 = stripTask task2)"

section \<open>archiveTask\<close>

text \<open>
  The two searches for a heading: the first line from \<open>i\<close> on that equals \<open>h\<close>, or \<open>-1\<close>.
\<close>

function findLine :: "Editor \<Rightarrow> string \<Rightarrow> int \<Rightarrow> int" where
  "findLine ed h i =
     (if i < lineCount ed then (if getLine ed i = h then i else findLine ed h (i + 1)) else -1)"
  by pat_completeness auto
termination
  by (relation "measure (\<lambda>(ed, h, i). nat (lineCount ed - i))") auto

text \<open>
  The loop that looks for one parent in today's list: it passes the subtasks of the
  level and the siblings that are not the parent.
\<close>

function skipToParent :: "Editor \<Rightarrow> string \<Rightarrow> nat \<Rightarrow> int \<Rightarrow> int" where
  "skipToParent ed parent level n =
     (if isArchiveTask ed n \<and>
         (indentLevel ed n > level \<or>
          (indentLevel ed n = level \<and> \<not> isSameTask (getLine ed n) parent))
      then skipToParent ed parent level (n + 1)
      else n)"
  by pat_completeness auto
termination
  by (relation "measure (\<lambda>(ed, parent, level, n). nat (lineCount ed - n))")
     (auto simp: isArchiveTask_def isBullet_def isBulletTask_def lastLine_def)

text \<open>
  The loop over the parents: it returns the line and the level it ends with. A parent
  that today's list does not have ends it early.
\<close>

function matchParents :: "Editor \<Rightarrow> string list \<Rightarrow> nat \<Rightarrow> int \<Rightarrow> int \<times> nat" where
  "matchParents ed ps level n =
     (if level < length ps then
        (let n' = skipToParent ed (ps ! level) level n
         in if \<not> isArchiveTask ed n' \<or> indentLevel ed n' < level then (n', level)
            else if indentLevel ed n' = level \<and> isSameTask (getLine ed n') (ps ! level)
            then matchParents ed ps (level + 1) (n' + 1)
            else matchParents ed ps (level + 1) n')
      else (n, level))"
  by pat_completeness auto
termination
  by (relation "measure (\<lambda>(ed, ps, level, n). length ps - level)") auto

text \<open>The loop to the end of the list (or sublist); it ends early on the task itself.\<close>

function skipToEnd :: "Editor \<Rightarrow> string \<Rightarrow> nat \<Rightarrow> int \<Rightarrow> int" where
  "skipToEnd ed t level n =
     (if isArchiveTask ed n \<and> indentLevel ed n \<ge> level then
        (if indentLevel ed n = level \<and> isSameTask (getLine ed n) t then n
         else skipToEnd ed t level (n + 1))
      else n)"
  by pat_completeness auto
termination
  by (relation "measure (\<lambda>(ed, t, level, n). nat (lineCount ed - n))")
     (auto simp: isArchiveTask_def isBullet_def isBulletTask_def lastLine_def)

text \<open>The branch taken when today's section is already there.\<close>

definition archiveInToday :: "Task \<Rightarrow> int \<Rightarrow> Markdown \<Rightarrow> Markdown" where
  "archiveInToday t todayLineNumber md =
     (case matchParents (editor md) (parents t) 0 (todayLineNumber + 1) of
        (n, currentParentLevel) \<Rightarrow>
          (let archiveTaskLineNumber = skipToEnd (editor md) (task t) currentParentLevel n
           in if indentLevel (editor md) archiveTaskLineNumber = currentParentLevel \<and>
                 isSameTask (getLine (editor md) archiveTaskLineNumber) (task t)
              then replaceLine archiveTaskLineNumber (task t) md
              else appendAfterLine (archiveTaskLineNumber - 1) (toString t currentParentLevel) md))"

definition archiveTask :: "LocalDate \<Rightarrow> bool \<Rightarrow> Editor \<Rightarrow> Editor" where
  "archiveTask now completeTask ed =
     (let currentPosition = getCursor ed;
          taskLineNumber = line currentPosition;
          md = newMarkdown ed
      in if \<not> isBulletTask ed taskLineNumber then ed
         else case getTask ed taskLineNumber of
           None \<Rightarrow> ed
         | Some taskResult \<Rightarrow>
            (let t = (if completeTask then markAsCompleted taskResult
                      else markAsInProgress taskResult);
                 found = findLine ed ''# History'' (taskLineNumber + 1);
                 md = (if found = -1 then appendToEnd ''# History'' md else md);
                 historyLineNumber = (if found = -1 then lineCount ed else found);
                 today = getLocalDateString now;
                 todayFound = findLine ed (''## '' @ today) (historyLineNumber + 1);
                 md = (if todayFound = -1
                       then appendAfterLine historyLineNumber (toString t 0)
                              (appendAfterLine historyLineNumber (''## '' @ today) md)
                       else archiveInToday t todayFound md);
                 md = (if completeTask then deleteLine taskLineNumber md else md);
                 md = applyChanges md
             in setCursor currentPosition (editor md)))"

text \<open>The two commands the plugin registers.\<close>

definition completeTask :: "LocalDate \<Rightarrow> Editor \<Rightarrow> Editor" where
  "completeTask now ed = archiveTask now True ed"

definition progressTask :: "LocalDate \<Rightarrow> Editor \<Rightarrow> Editor" where
  "progressTask now ed = archiveTask now False ed"

section \<open>The specification's normal form of a line\<close>

text \<open>
  The normal form as the specification words it: the surrounding white space is
  stripped, then one leading marker, \<open>- [ ]\<close>, \<open>- [x]\<close> or \<open>-\<close>, each followed by a space.
\<close>

definition normalisedBySpec :: "string \<Rightarrow> string" where
  "normalisedBySpec s =
     (if startsWith (trim s) ''- [ ] '' then drop 6 (trim s)
      else if startsWith (trim s) ''- [x] '' then drop 6 (trim s)
      else if startsWith (trim s) ''- '' then drop 2 (trim s)
      else trim s)"

section \<open>The ancestor chain, as the specification words it\<close>

text \<open>
  Line \<open>r\<close> is the nearest line above line \<open>c\<close> with less indentation: the line the
  upward scan for a parent of \<open>c\<close> stops at.
\<close>

definition nearestShallower :: "Editor \<Rightarrow> int \<Rightarrow> int \<Rightarrow> bool" where
  "nearestShallower ed c r =
     (0 \<le> r \<and> r < c \<and> indentLevel ed r < indentLevel ed c \<and>
      (\<forall>j\<in>{r<..<c}. indentLevel ed c \<le> indentLevel ed j))"

text \<open>
  A chain of ancestors of line \<open>c\<close>, innermost first: each is the nearest line above its
  child with less indentation, is a task, and is indented exactly one level less.
\<close>

fun ancestorChain :: "Editor \<Rightarrow> int \<Rightarrow> int list \<Rightarrow> bool" where
  "ancestorChain ed c [] = True"
| "ancestorChain ed c (r # rs) =
     (nearestShallower ed c r \<and> isBulletTask ed r \<and> Suc (indentLevel ed r) = indentLevel ed c
      \<and> ancestorChain ed r rs)"

text \<open>
  The three ways the resolution stops at line \<open>c\<close>: the scan reaches the start of the
  document (no line above has less indentation), or the line it finds is not a task, or
  that line is not indented exactly one level less.
\<close>

definition resolutionStops :: "Editor \<Rightarrow> int \<Rightarrow> bool" where
  "resolutionStops ed c =
     ((\<forall>r\<in>{0..<c}. indentLevel ed c \<le> indentLevel ed r) \<or>
      (\<exists>r\<in>{0..<c}. nearestShallower ed c r \<and>
          (\<not> isBulletTask ed r \<or> Suc (indentLevel ed r) \<noteq> indentLevel ed c)))"

section \<open>Lines and texts\<close>

declare skipUp.simps [simp del] findParents.simps [simp del] findLine.simps [simp del]
  skipToParent.simps [simp del] matchParents.simps [simp del] skipToEnd.simps [simp del]
  decimal.simps [simp del]

lemma splitLines_no_newline: "newline \<notin> set s \<Longrightarrow> splitLines s = [s]"
  by (induction s) auto

lemma splitLines_append_newline:
  "newline \<notin> set s \<Longrightarrow> splitLines (s @ newline # r) = s # splitLines r"
  by (induction s) auto

lemma splitLines_joinLines:
  "ls \<noteq> [] \<Longrightarrow> list_all (\<lambda>l. newline \<notin> set l) ls \<Longrightarrow> splitLines (joinLines ls) = ls"
proof (induction ls rule: joinLines.induct)
  case 1
  then show ?case by simp
next
  case (2 l)
  then show ?case by (simp add: splitLines_no_newline)
next
  case (3 l m ls)
  then show ?case by (simp add: splitLines_append_newline)
qed

lemma digit_not_newline: "d < 10 \<Longrightarrow> digit d \<noteq> newline"
proof -
  assume "d < 10"
  then have "d \<in> {0,1,2,3,4,5,6,7,8,9}" by auto
  then show ?thesis by (auto simp: digit_def newline_def)
qed

lemma decimal_no_newline: "newline \<notin> set (decimal n)"
proof (induction n rule: decimal.induct)
  case (1 n)
  show ?case
  proof (cases "n < 10")
    case True
    then show ?thesis using digit_not_newline [of n] by (subst decimal.simps) auto
  next
    case False
    then show ?thesis using 1 digit_not_newline [of "n mod 10"]
      by (subst decimal.simps) auto
  qed
qed

lemma today_no_newline: "newline \<notin> set (getLocalDateString now)"
proof -
  have "newline \<noteq> CHR ''-''" "newline \<noteq> CHR ''0''"
    by (simp_all add: newline_def)
  then show ?thesis
    by (auto simp: getLocalDateString_def padStart2_def decimal_no_newline)
qed

lemma todayHeading_no_newline: "newline \<notin> set (''## '' @ getLocalDateString now)"
proof -
  have "newline \<notin> set ''## ''" by (simp add: newline_def)
  then show ?thesis using today_no_newline [of now] by simp
qed

lemma replaceBulletTask_no_newline:
  assumes "newline \<notin> set r" "newline \<notin> set s"
  shows "newline \<notin> set (replaceBulletTask r s)"
proof -
  have "set (takeWhile isWhiteSpace s) \<subseteq> set s"
    by (auto dest: set_takeWhileD)
  moreover have "set (drop 5 (dropWhile isWhiteSpace s)) \<subseteq> set s"
    by (meson set_drop_subset set_dropWhileD subset_iff)
  ultimately show ?thesis using assms by (auto simp: replaceBulletTask_def)
qed

section \<open>Single changes\<close>

lemma replaceRange_insert:
  assumes "k < length ls" "newline \<notin> set (ls ! k)" "n = length (ls ! k)"
  shows "replaceRange ((k, n), (k, n), newline # t) ls
           = take (Suc k) ls @ splitLines t @ drop (Suc k) ls"
  using assms
  by (simp add: replaceRange_def splitLines_append_newline take_Suc_conv_app_nth)


lemma replaceRange_delete:
  assumes "Suc j < length ls" "newline \<notin> set (ls ! j)" "n = length (ls ! j)"
    "m = length (ls ! Suc j)"
  shows "replaceRange ((j, n), (Suc j, m), []) ls = take (Suc j) ls @ drop (Suc (Suc j)) ls"
  using assms
  by (simp add: replaceRange_def splitLines_no_newline take_Suc_conv_app_nth)

lemma replaceRange_delete0:
  assumes "ls \<noteq> []" "m = length (ls ! 0)"
  shows "replaceRange ((0, 0), (0, m), []) ls = [] # tl ls"
  using assms by (cases ls) (simp_all add: replaceRange_def)

lemma sort4:
  fixes a b c d :: "(nat \<times> nat) \<times> 'a"
  assumes "fst d < fst a" "fst a = fst b" "fst b = fst c"
  shows "sort_key fst [a, b, c, d] = [d, a, b, c]"
  using assms by (auto simp: not_le)

lemma sort3:
  fixes a b c :: "(nat \<times> nat) \<times> 'a"
  assumes "fst a = fst b" "fst b = fst c"
  shows "sort_key fst [a, b, c] = [a, b, c]"
  using assms by auto

lemma resolvePos_lineEnd:
  assumes "k < length (doc ed)"
  shows "resolvePos (doc ed) (lineEndPosition ed (int k)) = (k, length (doc ed ! k))"
  using assms by (simp add: resolvePos_def lineEndPosition_def getLine_def lineCount_def)

lemma resolvePos_pastEnd:
  assumes "doc ed \<noteq> []"
  shows "resolvePos (doc ed) (lineEndPosition ed (lineCount ed))
           = (length (doc ed) - 1, length (doc ed ! (length (doc ed) - 1)))"
  using assms by (simp add: resolvePos_def lineEndPosition_def getLine_def lineCount_def)

lemma resolvePos_lineStart:
  assumes "k < length ls"
  shows "resolvePos ls (lineStartPosition (int k)) = (k, 0)"
  using assms by (simp add: resolvePos_def lineStartPosition_def)

section \<open>The task of a line\<close>

lemma getLine_no_newline: "wellFormed ed \<Longrightarrow> newline \<notin> set (getLine ed n)"
  by (auto simp: wellFormed_def getLine_def lineCount_def list_all_length)

lemma findParents_no_newline:
  "wellFormed ed \<Longrightarrow> list_all (\<lambda>l. newline \<notin> set l) ps
     \<Longrightarrow> list_all (\<lambda>l. newline \<notin> set l) (findParents ed pil p cur ps)"
proof (induction ed pil p cur ps rule: findParents.induct)
  case (1 ed pil p cur ps)
  show ?case
  proof (cases "pil \<ge> 0 \<and> skipUp ed cur p \<ge> 0 \<and> isBulletTask ed (skipUp ed cur p)
              \<and> int (indentLevel ed (skipUp ed cur p)) = pil")
    case True
    have "list_all (\<lambda>l. newline \<notin> set l) (getLine ed (skipUp ed cur p) # ps)"
      using "1.prems" by (simp add: getLine_no_newline)
    then have "list_all (\<lambda>l. newline \<notin> set l)
       (findParents ed (pil - 1) (skipUp ed cur p) (nat pil) (getLine ed (skipUp ed cur p) # ps))"
      using True "1.prems"(1) by (intro "1.IH") auto
    then show ?thesis using True by (subst findParents.simps) simp
  next
    case False
    then show ?thesis using "1.prems" by (subst findParents.simps) auto
  qed
qed

lemma splitLines_join_task:
  "list_all (\<lambda>l. newline \<notin> set l) ps \<Longrightarrow> newline \<notin> set t \<Longrightarrow> ps \<noteq> []
     \<Longrightarrow> splitLines (joinLines ps @ newline # t) = ps @ [t]"
proof (induction ps rule: joinLines.induct)
  case 1
  then show ?case by simp
next
  case (2 l)
  then show ?case by (simp add: splitLines_append_newline splitLines_no_newline)
next
  case (3 l m ls)
  then show ?case by (simp add: splitLines_append_newline)
qed

lemma splitLines_toString:
  assumes "list_all (\<lambda>l. newline \<notin> set l) (parents T)" "newline \<notin> set (task T)"
  shows "splitLines (toString T k) = drop k (parents T) @ [task T]"
proof (cases "drop k (parents T) = []")
  case True
  then show ?thesis using assms by (simp add: toString_def splitLines_no_newline)
next
  case False
  moreover have "list_all (\<lambda>l. newline \<notin> set l) (drop k (parents T))"
    using assms(1) by (auto simp: list_all_iff dest: in_set_dropD)
  ultimately show ?thesis using assms(2)
    by (simp add: toString_def splitLines_join_task Let_def)
qed

text \<open>The task of a line, marked.\<close>

lemma getTask_Some:
  "isBulletTask ed n \<Longrightarrow> getTask ed n = Some (newTask
        (findParents ed (int (indentLevel ed n) - 1) (n - 1) (indentLevel ed n) [])
        (getLine ed n) [])"
  by (simp add: getTask_def)

lemma newTask_no_newline:
  assumes "wellFormed ed"
  shows "list_all (\<lambda>l. newline \<notin> set l)
           (parents (newTask (findParents ed pil p cur []) t cs))"
proof -
  have r: "newline \<notin> set ''-''" by (simp add: newline_def)
  have "list_all (\<lambda>l. newline \<notin> set l) (findParents ed pil p cur [])"
    by (rule findParents_no_newline [OF assms]) simp
  then have "\<forall>l\<in>set (findParents ed pil p cur []). newline \<notin> set (replaceBulletTask ''-'' l)"
    using replaceBulletTask_no_newline [OF r] by (simp add: list_all_iff del: set_simps)
  then show ?thesis
    by (simp add: newTask_def list_all_iff del: set_simps)
qed

lemma marked_no_newline:
  assumes "wellFormed ed" "getTask ed n = Some T0"
    "T = (if c then markAsCompleted T0 else markAsInProgress T0)"
  shows "list_all (\<lambda>l. newline \<notin> set l) (parents T) \<and> newline \<notin> set (task T)"
proof -
  have T0: "T0 = newTask (findParents ed (int (indentLevel ed n) - 1) (n - 1) (indentLevel ed n) [])
        (getLine ed n) []"
    using assms(2) by (auto simp: getTask_def split: if_splits)
  have p: "list_all (\<lambda>l. newline \<notin> set l) (parents T0)"
    unfolding T0 by (rule newTask_no_newline [OF assms(1)])
  have "task T0 = getLine ed n" by (simp add: T0 newTask_def)
  then have t: "newline \<notin> set (task T0)" using getLine_no_newline [OF assms(1)] by simp
  have x: "newline \<notin> set ''- [x]''" and y: "newline \<notin> set ''- [/]''"
    by (simp_all add: newline_def)
  have "newline \<notin> set (replaceBulletTask ''- [x]'' (task T0))"
    "newline \<notin> set (replaceBulletTask ''- [/]'' (task T0))"
    by (rule replaceBulletTask_no_newline [OF x t], rule replaceBulletTask_no_newline [OF y t])
  then show ?thesis using p assms(3)
    by (simp add: markAsCompleted_def markAsInProgress_def del: set_simps)
qed

lemma findLine_pastEnd: "lineCount ed \<le> i \<Longrightarrow> findLine ed h i = -1"
  by (subst findLine.simps) simp

lemma archiveTask_changes_created:
  assumes "isBulletTask ed (line (cursor ed))"
    and "findLine ed ''# History'' (line (cursor ed) + 1) = -1"
    and "getTask ed (line (cursor ed)) = Some T0"
    and "T = (if c then markAsCompleted T0 else markAsInProgress T0)"
  shows "doc (archiveTask now c ed) = applyAll
     ([\<lparr>chText = newline # ''# History'', chFrom = lineEndPosition ed (lastLine ed), chTo = None\<rparr>,
       \<lparr>chText = newline # ''## '' @ getLocalDateString now,
          chFrom = lineEndPosition ed (lineCount ed), chTo = None\<rparr>,
       \<lparr>chText = newline # toString T 0, chFrom = lineEndPosition ed (lineCount ed), chTo = None\<rparr>]
      @ (if c then [\<lparr>chText = [],
            chFrom = (if line (cursor ed) = 0 then lineStartPosition 0
                      else lineEndPosition ed (line (cursor ed) - 1)),
            chTo = Some (lineEndPosition ed (line (cursor ed)))\<rparr>] else [])) (doc ed)"
  using assms
  by (simp add: archiveTask_def Let_def newMarkdown_def appendToEnd_def appendAfterLine_def
      deleteLine_def applyChanges_def transaction_def setCursor_def getCursor_def
      findLine_pastEnd)

lemma lastLine_nat: "doc ed \<noteq> [] \<Longrightarrow> lastLine ed = int (length (doc ed) - 1)"
  by (cases "doc ed") (simp_all add: lastLine_def lineCount_def)

lemma append_three_at_end:
  assumes ne: "ls \<noteq> []" and nl: "newline \<notin> set (last ls)"
    and e: "e = (length ls - 1, length (ls ! (length ls - 1)))"
    and h: "newline \<notin> set h" and d: "newline \<notin> set d"
  shows "replaceRange (e, e, newline # h) (replaceRange (e, e, newline # d)
           (replaceRange (e, e, newline # b) ls)) = ls @ [h, d] @ splitLines b"
proof -
  let ?L = "length ls - 1"
  have L: "?L < length ls" "Suc ?L = length ls" using ne by (cases ls; simp)+
  have lastL: "ls ! ?L = last ls" using ne by (simp add: last_conv_nth)
  have 1: "replaceRange (e, e, newline # b) ls = ls @ splitLines b"
    unfolding e using replaceRange_insert [of ?L ls _ b] L nl lastL by simp
  have 2: "replaceRange (e, e, newline # d) (ls @ splitLines b) = ls @ [d] @ splitLines b"
    unfolding e
    using replaceRange_insert [of ?L "ls @ splitLines b" "length (ls ! ?L)" d] L nl lastL d
    by (simp add: nth_append splitLines_no_newline)
  have 3: "replaceRange (e, e, newline # h) (ls @ [d] @ splitLines b)
             = ls @ [h] @ [d] @ splitLines b"
    unfolding e
    using replaceRange_insert [of ?L "ls @ [d] @ splitLines b" "length (ls ! ?L)" h] L nl lastL h
    by (simp add: nth_append splitLines_no_newline)
  show ?thesis unfolding 1 2 3 by simp
qed

lemma delete_line_front:
  assumes t: "t < length ls" and nl: "list_all (\<lambda>l. newline \<notin> set l) ls"
    and f: "f = (if t = 0 then (0, 0) else (t - 1, length (ls ! (t - 1))))"
    and m: "m = length (ls ! t)"
  shows "replaceRange (f, (t, m), []) (ls @ rest)
           = (if t = 0 then [] # tl ls else take t ls @ drop (Suc t) ls) @ rest"
proof (cases t)
  case 0
  then show ?thesis using t m f
    using replaceRange_delete0 [of "ls @ rest" m] by (cases ls) (simp_all)
next
  case (Suc j)
  have "newline \<notin> set (ls ! j)" using nl t Suc by (simp add: list_all_length)
  then show ?thesis using Suc t m f
    using replaceRange_delete [of j "ls @ rest" "length (ls ! j)" m]
    by (simp add: nth_append)
qed

section \<open>Archiving into a document without a History section\<close>

lemma contains_nonempty: "contains s (p # ps) \<Longrightarrow> s \<noteq> []"
  by (cases s) auto

lemma isBulletTask_inDoc:
  assumes "isBulletTask ed (int t)"
  shows "t < length (doc ed)" "doc ed ! t \<noteq> []" "getLine ed (int t) = doc ed ! t"
proof -
  show t: "t < length (doc ed)" using assms by (simp add: isBulletTask_def lastLine_def lineCount_def)
  then show g: "getLine ed (int t) = doc ed ! t" by (simp add: getLine_def lineCount_def)
  show "doc ed ! t \<noteq> []" using assms g by (auto simp: isBulletTask_def dest: contains_nonempty)
qed

lemma archiveTask_creates_history:
  assumes wf: "wellFormed ed" and cur: "line (cursor ed) = int t"
    and tk: "isBulletTask ed (int t)"
    and noh: "findLine ed ''# History'' (int t + 1) = -1"
    and T0: "getTask ed (int t) = Some T0"
    and T: "T = (if c then markAsCompleted T0 else markAsInProgress T0)"
  shows "doc (archiveTask now c ed) =
     (if c then (if t = 0 then [] # tl (doc ed) else take t (doc ed) @ drop (Suc t) (doc ed))
      else doc ed)
     @ [''# History'', ''## '' @ getLocalDateString now] @ parents T @ [task T]"
proof -
  let ?ls = "doc ed"
  let ?L = "length ?ls - 1"
  let ?e = "(?L, length (?ls ! ?L))"
  let ?h = "''# History''" and ?d = "''## '' @ getLocalDateString now"
  let ?f = "if t = 0 then (0, 0) else (t - 1, length (?ls ! (t - 1)))"
  let ?r1 = "(?e, ?e, newline # ?h)" and ?r2 = "(?e, ?e, newline # ?d)"
  let ?r3 = "(?e, ?e, newline # toString T 0)"
  let ?r4 = "(?f, (t, length (?ls ! t)), [])"
  note tin = isBulletTask_inDoc [OF tk]
  have ne: "?ls \<noteq> []" and nl: "list_all (\<lambda>l. newline \<notin> set l) ?ls"
    using wf by (simp_all add: wellFormed_def)
  have L: "?L < length ?ls" using ne by simp
  have nlast: "newline \<notin> set (last ?ls)" using ne nl by (simp add: list_all_iff)
  have hn: "newline \<notin> set ?h" by (simp add: newline_def)
  have dn: "newline \<notin> set ?d" by (rule todayHeading_no_newline)
  have Tn: "list_all (\<lambda>l. newline \<notin> set l) (parents T)" "newline \<notin> set (task T)"
    using marked_no_newline [OF wf T0 T] by simp_all
  have body: "splitLines (toString T 0) = parents T @ [task T]"
    using splitLines_toString [OF Tn, of 0] by simp
  have e1: "resolvePos ?ls (lineEndPosition ed (lastLine ed)) = ?e"
    using resolvePos_lineEnd [OF L] lastLine_nat [OF ne] by simp
  have e2: "resolvePos ?ls (lineEndPosition ed (lineCount ed)) = ?e"
    by (rule resolvePos_pastEnd [OF ne])
  have three: "replaceRange ?r1 (replaceRange ?r2 (replaceRange ?r3 ?ls))
                 = ?ls @ [?h, ?d] @ parents T @ [task T]"
    using append_three_at_end [OF ne nlast refl hn dn, of "toString T 0"] body by simp
  have ch: "doc (archiveTask now c ed) = applyAll
     ([\<lparr>chText = newline # ?h, chFrom = lineEndPosition ed (lastLine ed), chTo = None\<rparr>,
       \<lparr>chText = newline # ?d, chFrom = lineEndPosition ed (lineCount ed), chTo = None\<rparr>,
       \<lparr>chText = newline # toString T 0, chFrom = lineEndPosition ed (lineCount ed), chTo = None\<rparr>]
      @ (if c then [\<lparr>chText = [],
            chFrom = (if t = 0 then lineStartPosition 0
                      else lineEndPosition ed (int t - 1)),
            chTo = Some (lineEndPosition ed (int t))\<rparr>] else [])) ?ls"
    using archiveTask_changes_created [of ed T0 T c now] tk noh T0 T cur by simp
  show ?thesis
  proof (cases c)
    case False
    have "doc (archiveTask now c ed) = foldr replaceRange (sort_key fst [?r1, ?r2, ?r3]) ?ls"
      unfolding ch using False
      by (simp add: applyAll_def resolveChange_def e1 e2 del: sort_key_simps)
    also have "sort_key fst [?r1, ?r2, ?r3] = [?r1, ?r2, ?r3]" by (rule sort3) simp_all
    finally show ?thesis using three False by (simp del: sort_key_simps)
  next
    case True
    have f: "resolvePos ?ls (if t = 0 then lineStartPosition 0
                      else lineEndPosition ed (int t - 1)) = ?f"
    proof (cases t)
      case 0
      then show ?thesis using resolvePos_lineStart [of 0 ?ls] ne by simp
    next
      case (Suc j)
      then show ?thesis using resolvePos_lineEnd [of j ed] tin(1) by simp
    qed
    have m: "resolvePos ?ls (lineEndPosition ed (int t)) = (t, length (?ls ! t))"
      by (rule resolvePos_lineEnd [OF tin(1)])
    have "doc (archiveTask now c ed) = foldr replaceRange (sort_key fst [?r1, ?r2, ?r3, ?r4]) ?ls"
      unfolding ch using True
      by (simp add: applyAll_def resolveChange_def e1 e2 f m del: sort_key_simps)
    also have "sort_key fst [?r1, ?r2, ?r3, ?r4] = [?r4, ?r1, ?r2, ?r3]"
    proof (rule sort4)
      show "fst ?r4 < fst ?r1" using tin(1,2) by (cases "t = ?L") auto
    qed simp_all
    finally have "doc (archiveTask now c ed)
         = replaceRange ?r4 (?ls @ [?h, ?d] @ parents T @ [task T])"
      using three by (simp del: sort_key_simps)
    also have "\<dots> = (if t = 0 then [] # tl ?ls else take t ?ls @ drop (Suc t) ?ls)
                      @ [?h, ?d] @ parents T @ [task T]"
      by (rule delete_line_front [OF tin(1) nl refl refl])
    finally show ?thesis using True by simp
  qed
qed

section \<open>The searches of archiveTask\<close>

lemma isArchiveTask_inDoc: "isArchiveTask ed n \<Longrightarrow> n < lineCount ed"
  by (auto simp: isArchiveTask_def isBullet_def isBulletTask_def lastLine_def)

lemma findLine_found:
  "findLine ed h i = r \<Longrightarrow> r \<noteq> -1 \<Longrightarrow> i \<le> r \<and> r < lineCount ed \<and> getLine ed r = h"
proof (induction ed h i rule: findLine.induct)
  case (1 ed h i)
  show ?case
  proof (cases "i < lineCount ed")
    case False
    then show ?thesis using "1.prems" by (subst (asm) findLine.simps) simp
  next
    case True
    show ?thesis
    proof (cases "getLine ed i = h")
      case same: True
      then show ?thesis using True "1.prems" by (subst (asm) findLine.simps) auto
    next
      case other: False
      then have "findLine ed h (i + 1) = r" using True "1.prems"(1)
        by (subst (asm) findLine.simps) simp
      then show ?thesis using "1.IH" [OF True other] "1.prems"(2) by auto
    qed
  qed
qed

lemma findLine_first:
  "findLine ed h i = r \<Longrightarrow> r \<noteq> -1 \<Longrightarrow> i \<le> j \<Longrightarrow> j < r \<Longrightarrow> getLine ed j \<noteq> h"
proof (induction ed h i rule: findLine.induct)
  case (1 ed h i)
  have lt: "i < lineCount ed" using "1.prems" findLine_found [of ed h i r] by auto
  have ne: "getLine ed i \<noteq> h"
  proof
    assume "getLine ed i = h"
    then have "findLine ed h i = i" using lt by (subst findLine.simps) simp
    then show False using "1.prems" by simp
  qed
  then have "findLine ed h (i + 1) = r" using lt "1.prems"(1)
    by (subst (asm) findLine.simps) simp
  then show ?case using "1.IH" [OF lt ne _ "1.prems"(2)] "1.prems"(3,4) ne
    by (cases "j = i") auto
qed


lemma skipToParent_bounds:
  "n \<le> skipToParent ed p l n \<and> skipToParent ed p l n \<le> max n (lineCount ed)"
proof (induction ed p l n rule: skipToParent.induct)
  case (1 ed p l n)
  show ?case
  proof (cases "isArchiveTask ed n \<and> (indentLevel ed n > l \<or>
          (indentLevel ed n = l \<and> \<not> isSameTask (getLine ed n) p))")
    case True
    then have "skipToParent ed p l n = skipToParent ed p l (n + 1)"
      by (subst skipToParent.simps) simp
    moreover have "n < lineCount ed" using True isArchiveTask_inDoc by blast
    ultimately show ?thesis using "1.IH" [OF True] by auto
  next
    case False
    then have "skipToParent ed p l n = n" by (subst skipToParent.simps) auto
    then show ?thesis by simp
  qed
qed

lemma skipToEnd_bounds:
  "n \<le> skipToEnd ed t l n \<and> skipToEnd ed t l n \<le> max n (lineCount ed)"
proof (induction ed t l n rule: skipToEnd.induct)
  case (1 ed t l n)
  show ?case
  proof (cases "isArchiveTask ed n \<and> indentLevel ed n \<ge> l")
    case True
    note run = this
    show ?thesis
    proof (cases "indentLevel ed n = l \<and> isSameTask (getLine ed n) t")
      case True
      then have "skipToEnd ed t l n = n" using run by (subst skipToEnd.simps) simp
      then show ?thesis by simp
    next
      case False
      then have "skipToEnd ed t l n = skipToEnd ed t l (n + 1)"
        using run by (subst skipToEnd.simps) auto
      moreover have "n < lineCount ed" using run isArchiveTask_inDoc by blast
      ultimately show ?thesis using "1.IH" [OF run False] by auto
    qed
  next
    case False
    then have "skipToEnd ed t l n = n" by (subst skipToEnd.simps) auto
    then show ?thesis by simp
  qed
qed

lemma matchParents_bounds:
  "matchParents ed ps l n = (n', L) \<Longrightarrow> n \<le> n' \<and> n' \<le> max n (lineCount ed)"
proof (induction ed ps l n rule: matchParents.induct)
  case (1 ed ps l n)
  let ?s = "skipToParent ed (ps ! l) l n"
  note sb = skipToParent_bounds [of n ed "ps ! l" l]
  show ?case
  proof (cases "l < length ps")
    case False
    then show ?thesis using "1.prems" by (subst (asm) matchParents.simps) simp
  next
    case True
    note lt = this
    show ?thesis
    proof (cases "\<not> isArchiveTask ed ?s \<or> indentLevel ed ?s < l")
      case True
      then have "matchParents ed ps l n = (?s, l)"
        using lt by (subst matchParents.simps) (simp add: Let_def)
      then show ?thesis using "1.prems" sb by auto
    next
      case False
      note nb = this
      have inDoc: "?s < lineCount ed" using nb isArchiveTask_inDoc by blast
      show ?thesis
      proof (cases "indentLevel ed ?s = l \<and> isSameTask (getLine ed ?s) (ps ! l)")
        case True
        then have "matchParents ed ps (l + 1) (?s + 1) = (n', L)"
          using lt nb "1.prems" by (subst (asm) matchParents.simps) (simp add: Let_def)
        then show ?thesis using "1.IH"(1) [OF lt refl nb True] sb inDoc by auto
      next
        case False
        then have "matchParents ed ps (l + 1) ?s = (n', L)"
          using lt nb "1.prems" by (subst (asm) matchParents.simps) (auto simp: Let_def)
        then show ?thesis using "1.IH"(2) [OF lt refl nb False] sb inDoc by auto
      qed
    qed
  qed
qed

section \<open>Transactions\<close>

lemma sort2:
  fixes a d :: "(nat \<times> nat) \<times> 'a"
  assumes "fst d < fst a"
  shows "sort_key fst [a, d] = [d, a]"
  using assms by (auto simp: not_le)

lemma sort3':
  fixes a b d :: "(nat \<times> nat) \<times> 'a"
  assumes "fst d < fst a" "fst a = fst b"
  shows "sort_key fst [a, b, d] = [d, a, b]"
  using assms by (auto simp: not_le)

text \<open>The changes \<open>deleteLine\<close> adds for the line of the task, resolved.\<close>

lemma resolve_delete:
  assumes "t < length (doc ed)"
  shows "resolveChange (doc ed) \<lparr>chText = [],
            chFrom = (if t = 0 then lineStartPosition 0 else lineEndPosition ed (int t - 1)),
            chTo = Some (lineEndPosition ed (int t))\<rparr>
         = ((if t = 0 then (0, 0) else (t - 1, length (doc ed ! (t - 1)))),
            (t, length (doc ed ! t)), [])"
proof (cases t)
  case 0
  then show ?thesis
    using assms resolvePos_lineStart [of 0 "doc ed"] resolvePos_lineEnd [of 0 ed]
    by (simp add: resolveChange_def)
next
  case (Suc j)
  then show ?thesis
    using assms resolvePos_lineEnd [of j ed] resolvePos_lineEnd [of t ed]
    by (simp add: resolveChange_def)
qed

lemma resolve_insert:
  assumes "k < length (doc ed)"
  shows "resolveChange (doc ed) \<lparr>chText = x, chFrom = lineEndPosition ed (int k), chTo = None\<rparr>
         = ((k, length (doc ed ! k)), (k, length (doc ed ! k)), x)"
  using assms resolvePos_lineEnd [of k ed] by (simp add: resolveChange_def)


text \<open>One or two texts appended after line \<open>k\<close>, and the line \<open>t\<close> before it deleted or not.\<close>

lemma applyAll_insert:
  assumes nl: "list_all (\<lambda>l. newline \<notin> set l) (doc ed)"
    and t: "t < k" and k: "k < length (doc ed)"
  shows "applyAll
     ([\<lparr>chText = newline # b, chFrom = lineEndPosition ed (int k), chTo = None\<rparr>]
      @ (if c then [\<lparr>chText = [],
            chFrom = (if t = 0 then lineStartPosition 0 else lineEndPosition ed (int t - 1)),
            chTo = Some (lineEndPosition ed (int t))\<rparr>] else [])) (doc ed)
     = (if c then (if t = 0 then [] # tl (take (Suc k) (doc ed))
                   else take t (doc ed) @ drop (Suc t) (take (Suc k) (doc ed)))
        else take (Suc k) (doc ed))
       @ splitLines b @ drop (Suc k) (doc ed)"
proof -
  let ?ls = "doc ed"
  let ?e = "(k, length (?ls ! k))"
  let ?f = "if t = 0 then (0, 0) else (t - 1, length (?ls ! (t - 1)))"
  let ?r = "(?e, ?e, newline # b)" and ?d = "(?f, (t, length (?ls ! t)), [])"
  have tl: "t < length ?ls" using t k by simp
  have nk: "newline \<notin> set (?ls ! k)" using nl k by (simp add: list_all_length)
  have ins: "replaceRange ?r ?ls = take (Suc k) ?ls @ splitLines b @ drop (Suc k) ?ls"
    by (rule replaceRange_insert [OF k nk refl])
  show ?thesis
  proof (cases c)
    case False
    then show ?thesis using ins by (simp add: applyAll_def resolve_insert [OF k])
  next
    case True
    have "applyAll
     ([\<lparr>chText = newline # b, chFrom = lineEndPosition ed (int k), chTo = None\<rparr>]
      @ (if c then [\<lparr>chText = [],
            chFrom = (if t = 0 then lineStartPosition 0 else lineEndPosition ed (int t - 1)),
            chTo = Some (lineEndPosition ed (int t))\<rparr>] else [])) ?ls
      = foldr replaceRange (sort_key fst [?r, ?d]) ?ls"
      using True
      by (simp add: applyAll_def resolve_insert [OF k] resolve_delete [OF tl]
          del: sort_key_simps)
    also have "sort_key fst [?r, ?d] = [?d, ?r]"
      by (rule sort2) (use t in auto)
    finally have "applyAll
     ([\<lparr>chText = newline # b, chFrom = lineEndPosition ed (int k), chTo = None\<rparr>]
      @ (if c then [\<lparr>chText = [],
            chFrom = (if t = 0 then lineStartPosition 0 else lineEndPosition ed (int t - 1)),
            chTo = Some (lineEndPosition ed (int t))\<rparr>] else [])) ?ls
      = replaceRange ?d (take (Suc k) ?ls @ splitLines b @ drop (Suc k) ?ls)"
      using ins by simp
    also have "\<dots> = (if t = 0 then [] # tl (take (Suc k) ?ls)
           else take t (take (Suc k) ?ls) @ drop (Suc t) (take (Suc k) ?ls))
          @ splitLines b @ drop (Suc k) ?ls"
      by (rule delete_line_front) (use t k nl in \<open>auto simp: list_all_length\<close>)
    finally show ?thesis using True t by (simp add: min_def)
  qed
qed

lemma applyAll_insert2:
  assumes nl: "list_all (\<lambda>l. newline \<notin> set l) (doc ed)"
    and t: "t < k" and k: "k < length (doc ed)" and a: "newline \<notin> set a"
  shows "applyAll
     ([\<lparr>chText = newline # a, chFrom = lineEndPosition ed (int k), chTo = None\<rparr>,
       \<lparr>chText = newline # b, chFrom = lineEndPosition ed (int k), chTo = None\<rparr>]
      @ (if c then [\<lparr>chText = [],
            chFrom = (if t = 0 then lineStartPosition 0 else lineEndPosition ed (int t - 1)),
            chTo = Some (lineEndPosition ed (int t))\<rparr>] else [])) (doc ed)
     = (if c then (if t = 0 then [] # tl (take (Suc k) (doc ed))
                   else take t (doc ed) @ drop (Suc t) (take (Suc k) (doc ed)))
        else take (Suc k) (doc ed))
       @ a # splitLines b @ drop (Suc k) (doc ed)"
proof -
  let ?ls = "doc ed"
  let ?e = "(k, length (?ls ! k))"
  let ?f = "if t = 0 then (0, 0) else (t - 1, length (?ls ! (t - 1)))"
  let ?ra = "(?e, ?e, newline # a)" and ?rb = "(?e, ?e, newline # b)"
  let ?d = "(?f, (t, length (?ls ! t)), [])"
  let ?cs = "[\<lparr>chText = newline # a, chFrom = lineEndPosition ed (int k), chTo = None\<rparr>,
       \<lparr>chText = newline # b, chFrom = lineEndPosition ed (int k), chTo = None\<rparr>]
      @ (if c then [\<lparr>chText = [],
            chFrom = (if t = 0 then lineStartPosition 0 else lineEndPosition ed (int t - 1)),
            chTo = Some (lineEndPosition ed (int t))\<rparr>] else [])"
  have tl: "t < length ?ls" using t k by simp
  have nk: "newline \<notin> set (?ls ! k)" using nl k by (simp add: list_all_length)
  have ins1: "replaceRange ?rb ?ls = take (Suc k) ?ls @ splitLines b @ drop (Suc k) ?ls"
    by (rule replaceRange_insert [OF k nk refl])
  have "replaceRange ?ra (take (Suc k) ?ls @ splitLines b @ drop (Suc k) ?ls)
          = take (Suc k) (take (Suc k) ?ls @ splitLines b @ drop (Suc k) ?ls) @ splitLines a
            @ drop (Suc k) (take (Suc k) ?ls @ splitLines b @ drop (Suc k) ?ls)"
    by (rule replaceRange_insert) (use k nk in \<open>auto simp: nth_append\<close>)
  then have ins2: "replaceRange ?ra (replaceRange ?rb ?ls)
          = take (Suc k) ?ls @ a # splitLines b @ drop (Suc k) ?ls"
    using k a by (simp add: ins1 splitLines_no_newline min_def)
  show ?thesis
  proof (cases c)
    case False
    have "applyAll ?cs ?ls = foldr replaceRange (sort_key fst [?ra, ?rb]) ?ls"
      using False by (simp add: applyAll_def resolve_insert [OF k] del: sort_key_simps)
    also have "sort_key fst [?ra, ?rb] = [?ra, ?rb]" by simp
    finally show ?thesis using False ins2 by simp
  next
    case True
    have "applyAll ?cs ?ls = foldr replaceRange (sort_key fst [?ra, ?rb, ?d]) ?ls"
      using True
      by (simp add: applyAll_def resolve_insert [OF k] resolve_delete [OF tl]
          del: sort_key_simps)
    also have "sort_key fst [?ra, ?rb, ?d] = [?d, ?ra, ?rb]"
      by (rule sort3') (use t in auto)
    finally have "applyAll ?cs ?ls
      = replaceRange ?d (take (Suc k) ?ls @ a # splitLines b @ drop (Suc k) ?ls)"
      using ins2 by simp
    also have "\<dots> = (if t = 0 then [] # tl (take (Suc k) ?ls)
           else take t (take (Suc k) ?ls) @ drop (Suc t) (take (Suc k) ?ls))
          @ a # splitLines b @ drop (Suc k) ?ls"
      by (rule delete_line_front) (use t k nl in \<open>auto simp: list_all_length\<close>)
    finally show ?thesis using True t by (simp add: min_def)
  qed
qed


section \<open>Archiving into a document with a History section\<close>

lemma archiveTask_creates_today:
  assumes wf: "wellFormed ed" and cur: "line (cursor ed) = int t"
    and tk: "isBulletTask ed (int t)"
    and T0: "getTask ed (int t) = Some T0"
    and T: "T = (if c then markAsCompleted T0 else markAsInProgress T0)"
    and h: "findLine ed ''# History'' (int t + 1) = int h"
    and notoday: "findLine ed (''## '' @ getLocalDateString now) (int h + 1) = -1"
  shows "doc (archiveTask now c ed) =
     (if c then (if t = 0 then [] # tl (take (Suc h) (doc ed))
                 else take t (doc ed) @ drop (Suc t) (take (Suc h) (doc ed)))
      else take (Suc h) (doc ed))
     @ (''## '' @ getLocalDateString now) # parents T @ [task T] @ drop (Suc h) (doc ed)"
proof -
  have nl: "list_all (\<lambda>l. newline \<notin> set l) (doc ed)" using wf by (simp add: wellFormed_def)
  have hb: "t < h" "h < length (doc ed)"
    using findLine_found [OF h] by (simp_all add: lineCount_def)
  have Tn: "list_all (\<lambda>l. newline \<notin> set l) (parents T)" "newline \<notin> set (task T)"
    using marked_no_newline [OF wf T0 T] by simp_all
  have body: "splitLines (toString T 0) = parents T @ [task T]"
    using splitLines_toString [OF Tn, of 0] by simp
  have "doc (archiveTask now c ed) = applyAll
     ([\<lparr>chText = newline # ''## '' @ getLocalDateString now,
          chFrom = lineEndPosition ed (int h), chTo = None\<rparr>,
       \<lparr>chText = newline # toString T 0, chFrom = lineEndPosition ed (int h), chTo = None\<rparr>]
      @ (if c then [\<lparr>chText = [],
            chFrom = (if t = 0 then lineStartPosition 0 else lineEndPosition ed (int t - 1)),
            chTo = Some (lineEndPosition ed (int t))\<rparr>] else [])) (doc ed)"
    using tk T0 T h notoday cur
    by (simp add: archiveTask_def Let_def newMarkdown_def appendAfterLine_def
        deleteLine_def applyChanges_def transaction_def setCursor_def getCursor_def)
  then show ?thesis
    using applyAll_insert2 [OF nl hb todayHeading_no_newline, of now "toString T 0" c] body
    by simp
qed

lemma archiveInToday_editor: "editor (archiveInToday T d md) = editor md"
  by (simp add: archiveInToday_def replaceLine_def appendAfterLine_def Let_def
      split: prod.split)

lemma archiveTask_today_changes:
  assumes cur: "line (cursor ed) = int t"
    and tk: "isBulletTask ed (int t)"
    and T0: "getTask ed (int t) = Some T0"
    and T: "T = (if c then markAsCompleted T0 else markAsInProgress T0)"
    and h: "findLine ed ''# History'' (int t + 1) = int h"
    and today: "findLine ed (''## '' @ getLocalDateString now) (int h + 1) = int d"
  shows "doc (archiveTask now c ed) = applyAll
     (changes (archiveInToday T (int d) \<lparr>editor = ed, changes = []\<rparr>)
      @ (if c then [\<lparr>chText = [],
            chFrom = (if t = 0 then lineStartPosition 0 else lineEndPosition ed (int t - 1)),
            chTo = Some (lineEndPosition ed (int t))\<rparr>] else [])) (doc ed)"
  using tk T0 T h today cur
  by (simp add: archiveTask_def Let_def deleteLine_def applyChanges_def transaction_def
      setCursor_def getCursor_def archiveInToday_editor newMarkdown_def)

lemma archiveTask_inserts:
  assumes wf: "wellFormed ed" and cur: "line (cursor ed) = int t"
    and tk: "isBulletTask ed (int t)"
    and T0: "getTask ed (int t) = Some T0"
    and T: "T = (if c then markAsCompleted T0 else markAsInProgress T0)"
    and h: "findLine ed ''# History'' (int t + 1) = int h"
    and today: "findLine ed (''## '' @ getLocalDateString now) (int h + 1) = int d"
    and mp: "matchParents ed (parents T) 0 (int d + 1) = (n, L)"
    and k: "skipToEnd ed (task T) L n = int k"
    and other: "\<not> (indentLevel ed (int k) = L \<and> isSameTask (getLine ed (int k)) (task T))"
  shows "doc (archiveTask now c ed) =
     (if c then (if t = 0 then [] # tl (take k (doc ed))
                 else take t (doc ed) @ drop (Suc t) (take k (doc ed)))
      else take k (doc ed))
     @ drop L (parents T) @ [task T] @ drop k (doc ed)"
proof -
  have nl: "list_all (\<lambda>l. newline \<notin> set l) (doc ed)" using wf by (simp add: wellFormed_def)
  have hb: "t < h" using findLine_found [OF h] by simp
  have db: "h < d" "int d < lineCount ed" using findLine_found [OF today] by simp_all
  have nb: "int d + 1 \<le> n" "n \<le> lineCount ed"
    using matchParents_bounds [OF mp] db by auto
  have kb: "n \<le> int k" "int k \<le> lineCount ed"
    using skipToEnd_bounds [of n ed "task T" L] k nb by auto
  obtain j where j: "k = Suc j" using nb kb by (cases k) auto
  have jb: "t < j" "j < length (doc ed)"
    using hb db nb kb j by (simp_all add: lineCount_def)
  have Tn: "list_all (\<lambda>l. newline \<notin> set l) (parents T)" "newline \<notin> set (task T)"
    using marked_no_newline [OF wf T0 T] by simp_all
  have body: "splitLines (toString T L) = drop L (parents T) @ [task T]"
    by (rule splitLines_toString [OF Tn])
  have "changes (archiveInToday T (int d) \<lparr>editor = ed, changes = []\<rparr>)
      = [\<lparr>chText = newline # toString T L, chFrom = lineEndPosition ed (int j), chTo = None\<rparr>]"
    using mp k other j
    by (auto simp: archiveInToday_def appendAfterLine_def Let_def)
  then show ?thesis
    using archiveTask_today_changes [OF cur tk T0 T h today]
      applyAll_insert [OF nl jb, of "toString T L" c] body j
    by simp
qed


section \<open>Examples\<close>

lemma example_getTask:
  "getTask \<lparr>doc = [''- [ ] A'', tab # ''- [ ] B''], cursor = \<lparr>line = 1, ch = c\<rparr>, applied = a, cursorAfter = m\<rparr> 1
     = Some \<lparr>parents = [''- A''], task = tab # ''- [ ] B'', children = []\<rparr>"
  by (simp add: getTask_def isBulletTask_def lastLine_def lineCount_def getLine_def
      indentLevel_def leadingTabs_def tab_def findParents.simps skipUp.simps newTask_def
      replaceBulletTask_def isWhiteSpace_def)

lemma today_2026_11_03: "getLocalDateString \<lparr>fullYear = 2026, month = 10, date = 3\<rparr> = ''2026-11-03''"
  by (simp add: getLocalDateString_def decimal.simps digit_def padStart2_def)

lemma archiveTask_cursor: "cursor (archiveTask now c ed) = cursor ed"
  by (simp add: archiveTask_def getTask_def Let_def getCursor_def setCursor_def)

section \<open>Markers and indentation\<close>

lemma contains_append_left: "contains s p \<Longrightarrow> contains (a @ s) p"
proof (induction a)
  case Nil
  then show ?case by simp
next
  case (Cons c a)
  then show ?case by simp
qed

lemma startsWith_append: "startsWith s (p @ q) \<Longrightarrow> startsWith s p"
  by (induction s p rule: startsWith.induct) auto

lemma contains_shorter: "contains s (p @ q) \<Longrightarrow> contains s p"
  by (induction s) (auto dest: startsWith_append)

lemma contains_whitespace_skip:
  assumes "\<not> isWhiteSpace m"
  shows "contains s (m # p) \<Longrightarrow> contains (dropWhile isWhiteSpace s) (m # p)"
  using assms by (induction s) auto

lemma task_contains_bullet:
  assumes "contains s ''- [ ] '' \<or> contains s ''- [x] ''"
  shows "contains s ''- ''"
  using assms contains_shorter [of s "''- ''" "''[ ] ''"] contains_shorter [of s "''- ''" "''[x] ''"]
  by auto

lemma replaceBulletTask_contains_bullet:
  assumes "contains s ''- [ ] '' \<or> contains s ''- [x] ''"
    and "r = ''-'' \<or> r = ''- [x]'' \<or> r = ''- [/]''"
  shows "contains (replaceBulletTask r s) ''- ''"
proof (cases "startsWith (dropWhile isWhiteSpace s) ''- [ ]''")
  case False
  then show ?thesis using task_contains_bullet [OF assms(1)] by (simp add: replaceBulletTask_def)
next
  case True
  let ?d = "dropWhile isWhiteSpace s"
  obtain rest where d: "?d = ''- [ ]'' @ rest"
    using True by (auto simp: neq_Nil_conv elim!: startsWith.elims)
  have "contains ?d ''- [ ] '' \<or> contains ?d ''- [x] ''"
    using assms(1) contains_whitespace_skip [of "CHR ''-''" s]
    by (auto simp: isWhiteSpace_def)
  then have "startsWith rest '' '' \<or> contains rest ''- [ ] '' \<or> contains rest ''- [x] ''"
    unfolding d by auto
  then have "startsWith rest '' '' \<or> contains rest ''- ''"
    using task_contains_bullet [of rest] by blast
  then have "contains (r @ rest) ''- ''"
    using assms(2) by auto
  then have "contains (takeWhile isWhiteSpace s @ r @ rest) ''- ''"
    by (rule contains_append_left)
  then show ?thesis using True d by (simp add: replaceBulletTask_def)
qed

lemma leadingTabs_replaceBulletTask:
  assumes "r = ''-'' \<or> r = ''- [x]'' \<or> r = ''- [/]''"
  shows "leadingTabs (replaceBulletTask r s) = leadingTabs s"
proof (cases "startsWith (dropWhile isWhiteSpace s) ''- [ ]''")
  case False
  then show ?thesis by (simp add: replaceBulletTask_def)
next
  case True
  let ?w = "takeWhile isWhiteSpace s" and ?d = "dropWhile isWhiteSpace s"
  let ?P = "\<lambda>c. c = tab"
  obtain rest where d: "?d = ''- [ ]'' @ rest"
    using True by (auto simp: neq_Nil_conv elim!: startsWith.elims)
  obtain x where r: "r @ rest = CHR ''-'' # x" using assms by auto
  have "takeWhile ?P (?w @ CHR ''-'' # y) = takeWhile ?P ?w" for y
  proof (cases "\<forall>c\<in>set ?w. ?P c")
    case True
    then have a: "takeWhile ?P ?w = ?w" by (simp add: takeWhile_eq_all_conv)
    have b: "takeWhile ?P (?w @ CHR ''-'' # y) = ?w @ takeWhile ?P (CHR ''-'' # y)"
      using True by (simp add: takeWhile_append2)
    have c: "takeWhile ?P (CHR ''-'' # y) = []" by (simp add: tab_def)
    show ?thesis unfolding b c append_Nil2 by (rule a [symmetric])
  next
    case False
    then obtain c where "c \<in> set ?w" "\<not> ?P c" by blast
    then show ?thesis by (simp add: takeWhile_append1)
  qed
  note tw = this
  have "takeWhile ?P (replaceBulletTask r s) = takeWhile ?P ?w"
    using True d r tw [of x] by (simp add: replaceBulletTask_def)
  moreover have "takeWhile ?P s = takeWhile ?P ?w"
  proof -
    have "s = ?w @ ?d" by simp
    then have "s = ?w @ CHR ''-'' # ('' [ ]'' @ rest)" using d by simp
    then have "takeWhile ?P s = takeWhile ?P (?w @ CHR ''-'' # ('' [ ]'' @ rest))" by simp
    then show ?thesis using tw by simp
  qed
  ultimately show ?thesis by (simp add: leadingTabs_def)
qed

section \<open>The parents of a task\<close>

lemma skipUp_spec:
  "-1 \<le> p \<Longrightarrow> -1 \<le> skipUp ed cur p \<and> skipUp ed cur p \<le> p
     \<and> (0 \<le> skipUp ed cur p \<longrightarrow> indentLevel ed (skipUp ed cur p) < cur)
     \<and> (\<forall>j. skipUp ed cur p < j \<and> j \<le> p \<longrightarrow> cur \<le> indentLevel ed j)"
proof (induction ed cur p rule: skipUp.induct)
  case (1 ed cur p)
  show ?case
  proof (cases "p \<ge> 0 \<and> indentLevel ed p \<ge> cur")
    case True
    then have e: "skipUp ed cur p = skipUp ed cur (p - 1)" by (subst skipUp.simps) simp
    have "-1 \<le> p - 1" using True by simp
    from "1.IH" [OF True this] show ?thesis unfolding e using True
      by (auto simp: order_less_le dest: zle_diff1_eq [THEN iffD2])
  next
    case False
    then have e: "skipUp ed cur p = p" by (subst skipUp.simps) auto
    show ?thesis unfolding e using False "1.prems" by auto
  qed
qed

lemma skipUp_from_child:
  assumes "0 \<le> c" "indentLevel ed c = cur" "p = c - 1 \<or> p = c"
  shows "skipUp ed cur p = skipUp ed cur (c - 1)"
proof (cases "p = c")
  case True
  have "skipUp ed cur c = skipUp ed cur (c - 1)"
    using assms(1,2) by (subst skipUp.simps) simp
  then show ?thesis using True by simp
next
  case False
  then show ?thesis using assms(3) by simp
qed

lemma findParents_chain:
  "0 \<le> c \<Longrightarrow> indentLevel ed c = cur \<Longrightarrow> p = c - 1 \<or> p = c \<Longrightarrow>
   \<exists>qs. findParents ed (int cur - 1) p cur ps = map (getLine ed) qs @ ps
      \<and> ancestorChain ed c (rev qs)
      \<and> sorted_wrt (<) (qs @ [c])
      \<and> map (indentLevel ed) qs = [cur - length qs ..< cur]
      \<and> (length qs < cur \<longrightarrow> resolutionStops ed (hd (qs @ [c])))"
proof (induction cur arbitrary: c p ps)
  case 0
  have "findParents ed (int 0 - 1) p 0 ps = ps" by (subst findParents.simps) simp
  then show ?case by (intro exI [of _ "[]"]) simp
next
  case (Suc k)
  let ?q = "skipUp ed (Suc k) p"
  have q: "?q = skipUp ed (Suc k) (c - 1)"
    by (rule skipUp_from_child [OF Suc.prems])
  have spec: "-1 \<le> ?q" "?q \<le> c - 1" "0 \<le> ?q \<longrightarrow> indentLevel ed ?q < Suc k"
    "\<forall>j. ?q < j \<and> j \<le> c - 1 \<longrightarrow> Suc k \<le> indentLevel ed j"
    using skipUp_spec [of "c - 1" ed "Suc k"] Suc.prems(1) unfolding q by auto
  show ?case
  proof (cases "?q \<ge> 0 \<and> isBulletTask ed ?q \<and> indentLevel ed ?q = k")
    case True
    have near: "nearestShallower ed c ?q"
      using True spec Suc.prems(2) by (auto simp: nearestShallower_def)
    have step: "findParents ed (int (Suc k) - 1) p (Suc k) ps
                  = findParents ed (int k - 1) ?q k (getLine ed ?q # ps)"
      using True by (subst findParents.simps) simp
    obtain qs' where IH: "findParents ed (int k - 1) ?q k (getLine ed ?q # ps)
          = map (getLine ed) qs' @ getLine ed ?q # ps"
        "ancestorChain ed ?q (rev qs')" "sorted_wrt (<) (qs' @ [?q])"
        "map (indentLevel ed) qs' = [k - length qs' ..< k]"
        "length qs' < k \<longrightarrow> resolutionStops ed (hd (qs' @ [?q]))"
      using Suc.IH [of ?q ?q "getLine ed ?q # ps"] True by auto
    have len: "length qs' \<le> k"
      using arg_cong [OF IH(4), of length] by simp
    have a: "findParents ed (int (Suc k) - 1) p (Suc k) ps = map (getLine ed) (qs' @ [?q]) @ ps"
      using step IH(1) by simp
    have b: "ancestorChain ed c (rev (qs' @ [?q]))"
      using near True IH(2) Suc.prems(2) by simp
    have c: "sorted_wrt (<) ((qs' @ [?q]) @ [c])"
      using IH(3) spec(2) by (auto simp: sorted_wrt_append)
    have "[Suc k - Suc (length qs') ..< Suc k] = [k - length qs' ..< k] @ [k]"
      using len by simp
    then have d: "map (indentLevel ed) (qs' @ [?q])
           = [Suc k - length (qs' @ [?q]) ..< Suc k]"
      using IH(4) True by simp
    have e: "length (qs' @ [?q]) < Suc k \<longrightarrow> resolutionStops ed (hd ((qs' @ [?q]) @ [c]))"
      using IH(5) by (cases qs') auto
    show ?thesis using a b c d e by blast
  next
    case False
    have step: "findParents ed (int (Suc k) - 1) p (Suc k) ps = ps"
      using False by (subst findParents.simps) auto
    have "resolutionStops ed c"
    proof (cases "?q \<ge> 0")
      case True
      then have "nearestShallower ed c ?q"
        using spec Suc.prems(2) by (auto simp: nearestShallower_def)
      moreover have "\<not> isBulletTask ed ?q \<or> Suc (indentLevel ed ?q) \<noteq> indentLevel ed c"
        using False True Suc.prems(2) by auto
      moreover have "?q \<in> {0..<c}" using True spec(2) by simp
      ultimately show ?thesis unfolding resolutionStops_def by blast
    next
      case False
      then have "?q = -1" using spec(1) by simp
      then show ?thesis using spec(4) Suc.prems(2) by (auto simp: resolutionStops_def)
    qed
    then show ?thesis using step by (intro exI [of _ "[]"]) simp
  qed
qed

lemma isBulletTask_nonneg: "isBulletTask ed n \<Longrightarrow> 0 \<le> n"
  by (auto simp: isBulletTask_def getLine_def split: if_splits)

lemma getTask_chain:
  assumes "isBulletTask ed n"
  shows "\<exists>qs. getTask ed n = Some (newTask (map (getLine ed) qs) (getLine ed n) [])
      \<and> ancestorChain ed n (rev qs)
      \<and> sorted_wrt (<) (qs @ [n])
      \<and> map (indentLevel ed) qs = [indentLevel ed n - length qs ..< indentLevel ed n]
      \<and> (length qs < indentLevel ed n \<longrightarrow> resolutionStops ed (hd (qs @ [n])))"
proof -
  have "0 \<le> n" by (rule isBulletTask_nonneg [OF assms])
  from findParents_chain [OF this refl, of "n - 1" ed "[]"]
  obtain qs where "findParents ed (int (indentLevel ed n) - 1) (n - 1) (indentLevel ed n) []
        = map (getLine ed) qs"
      "ancestorChain ed n (rev qs)" "sorted_wrt (<) (qs @ [n])"
      "map (indentLevel ed) qs = [indentLevel ed n - length qs ..< indentLevel ed n]"
      "length qs < indentLevel ed n \<longrightarrow> resolutionStops ed (hd (qs @ [n]))"
    by auto
  then show ?thesis using assms by (intro exI [of _ qs]) (simp add: getTask_def)
qed

lemma ancestorChain_tasks: "ancestorChain ed c rs \<Longrightarrow> \<forall>r\<in>set rs. isBulletTask ed r"
  by (induction rs arbitrary: c) auto

lemma isBulletTask_contains:
  "isBulletTask ed n \<Longrightarrow> contains (getLine ed n) ''- [ ] '' \<or> contains (getLine ed n) ''- [x] ''"
  by (simp add: isBulletTask_def)

lemma marked_facts:
  assumes tk: "isBulletTask ed n" and T0: "getTask ed n = Some T0"
    and T: "T = (if c then markAsCompleted T0 else markAsInProgress T0)"
  shows "list_all (\<lambda>l. contains l ''- '') (parents T)"
    and "contains (task T) ''- ''"
    and "leadingTabs (task T) = indentLevel ed n"
    and "length (parents T) = indentLevel ed n
           \<Longrightarrow> i < length (parents T) \<Longrightarrow> leadingTabs (parents T ! i) = i"
proof -
  obtain qs where qs: "getTask ed n = Some (newTask (map (getLine ed) qs) (getLine ed n) [])"
      "ancestorChain ed n (rev qs)"
      "map (indentLevel ed) qs = [indentLevel ed n - length qs ..< indentLevel ed n]"
    using getTask_chain [OF tk] by blast
  have T0': "T0 = newTask (map (getLine ed) qs) (getLine ed n) []" using qs(1) T0 by simp
  have p: "parents T = map (replaceBulletTask ''-'') (map (getLine ed) qs)"
    and t: "task T = replaceBulletTask (if c then ''- [x]'' else ''- [/]'') (getLine ed n)"
    using T by (auto simp: T0' newTask_def markAsCompleted_def markAsInProgress_def)
  have tasks: "\<forall>q\<in>set qs. isBulletTask ed q" using ancestorChain_tasks [OF qs(2)] by simp
  show "list_all (\<lambda>l. contains l ''- '') (parents T)"
    unfolding p using tasks
    by (auto simp: list_all_iff intro!: replaceBulletTask_contains_bullet isBulletTask_contains
        simp del: contains.simps)
  show "contains (task T) ''- ''"
    unfolding t by (rule replaceBulletTask_contains_bullet [OF isBulletTask_contains [OF tk]]) simp
  show "leadingTabs (task T) = indentLevel ed n"
    unfolding t by (simp add: leadingTabs_replaceBulletTask indentLevel_def)
  show "leadingTabs (parents T ! i) = i"
    if full: "length (parents T) = indentLevel ed n" and i: "i < length (parents T)"
  proof -
    have l: "length qs = indentLevel ed n" using full p by simp
    have "map (indentLevel ed) qs ! i = [0 ..< indentLevel ed n] ! i"
      using qs(3) l by simp
    then have "indentLevel ed (qs ! i) = i" using i p l by simp
    then show ?thesis using i p by (simp add: leadingTabs_replaceBulletTask indentLevel_def)
  qed
qed

section \<open>Headings above the task\<close>

lemma findLine_absent:
  assumes "\<forall>j. i \<le> j \<and> j < lineCount ed \<longrightarrow> getLine ed j \<noteq> h"
  shows "findLine ed h i = -1"
proof (rule ccontr)
  assume "findLine ed h i \<noteq> -1"
  from findLine_found [OF refl this] assms show False by blast
qed

lemma filter_unique:
  assumes "h < length ls" "ls ! h = x" "\<forall>j<length ls. ls ! j = x \<longrightarrow> j = h"
  shows "filter (\<lambda>l. l = x) ls = [x]"
proof -
  have ls: "ls = take h ls @ x # drop (Suc h) ls"
    using id_take_nth_drop [OF assms(1)] assms(2) by simp
  have "filter (\<lambda>l. l = x) (take h ls) = []"
  proof -
    have "l \<noteq> x" if m: "l \<in> set (take h ls)" for l
    proof -
      obtain j where j: "j < h" "j < length ls" "l = ls ! j"
        using m assms(1) by (auto simp: in_set_conv_nth)
      then have "j \<noteq> h" by simp
      then show ?thesis using assms(3) j by blast
    qed
    then show ?thesis by (auto simp: filter_empty_conv)
  qed
  moreover have "filter (\<lambda>l. l = x) (drop (Suc h) ls) = []"
  proof -
    have "l \<noteq> x" if m: "l \<in> set (drop (Suc h) ls)" for l
    proof -
      obtain j where "j < length ls - Suc h" "l = ls ! (Suc h + j)"
        using m by (auto simp: in_set_conv_nth)
      then have "Suc h + j < length ls" "Suc h + j \<noteq> h" "l = ls ! (Suc h + j)"
        by simp_all
      then show ?thesis using assms(3) by blast
    qed
    then show ?thesis by (auto simp: filter_empty_conv)
  qed
  ultimately show ?thesis by (subst ls) simp
qed


section \<open>The search in today's list\<close>




section \<open>A document with lines added at its end\<close>













section \<open>The run of entries a task is added to\<close>



section \<open>Claims\<close>

text \<open>
  C1. Progress Task on the only unchecked task of a document, then Complete Task on the
  same line, should leave one entry for the task in today's subsection, checked. The
  code leaves two: \<open>stripTask\<close> does not know the in-progress marker \<open>- [/]\<close> that
  \<open>markAsInProgress\<close> writes, so the in-progress entry is not recognised as the same
  task and the checked entry is added after it.
\<close>

theorem progress_then_complete_two_entries:
  "doc (progressTask \<lparr>fullYear = 2026, month = 10, date = 3\<rparr>
         \<lparr>doc = [''- [ ] X''], cursor = \<lparr>line = 0, ch = 0\<rparr>, applied = [], cursorAfter = m\<rparr>)
     = [''- [ ] X'', ''# History'', ''## 2026-11-03'', ''- [/] X'']
   \<and> doc (completeTask \<lparr>fullYear = 2026, month = 10, date = 3\<rparr>
         (progressTask \<lparr>fullYear = 2026, month = 10, date = 3\<rparr>
            \<lparr>doc = [''- [ ] X''], cursor = \<lparr>line = 0, ch = 0\<rparr>, applied = [], cursorAfter = m\<rparr>))
     = [[], ''# History'', ''## 2026-11-03'', ''- [/] X'', ''- [x] X'']"
proof -
  let ?now = "\<lparr>fullYear = 2026, month = 10, date = 3\<rparr>"
  let ?ed = "\<lparr>doc = [''- [ ] X''], cursor = \<lparr>line = 0, ch = 0\<rparr>, applied = [], cursorAfter = m\<rparr>"
  let ?T0 = "\<lparr>parents = [], task = ''- [ ] X'', children = []\<rparr>"
  let ?ed1 = "progressTask ?now ?ed"
  have wf: "wellFormed ?ed" by (simp add: wellFormed_def newline_def)
  have tk: "isBulletTask ?ed (int 0)"
    by (simp add: isBulletTask_def lastLine_def lineCount_def getLine_def)
  have noh: "findLine ?ed ''# History'' (int 0 + 1) = -1"
    by (rule findLine_pastEnd) (simp add: lineCount_def)
  have T0: "getTask ?ed (int 0) = Some ?T0"
    by (simp add: getTask_def isBulletTask_def lastLine_def lineCount_def getLine_def
      indentLevel_def leadingTabs_def tab_def findParents.simps newTask_def)
  have mp: "markAsInProgress ?T0 = \<lparr>parents = [], task = ''- [/] X'', children = []\<rparr>"
    by (simp add: markAsInProgress_def replaceBulletTask_def isWhiteSpace_def)
  have mc: "markAsCompleted ?T0 = \<lparr>parents = [], task = ''- [x] X'', children = []\<rparr>"
    by (simp add: markAsCompleted_def replaceBulletTask_def isWhiteSpace_def)
  have d1: "doc ?ed1 = [''- [ ] X'', ''# History'', ''## 2026-11-03'', ''- [/] X'']"
    unfolding progressTask_def
    using archiveTask_creates_history [OF wf _ tk noh T0 refl, of ?now False] mp
    by (simp add: today_2026_11_03)
  have c1: "line (cursor ?ed1) = int 0"
    by (simp add: progressTask_def archiveTask_cursor)
  have wf1: "wellFormed ?ed1" by (simp add: wellFormed_def newline_def d1)
  have tk1: "isBulletTask ?ed1 (int 0)"
    by (simp add: isBulletTask_def lastLine_def lineCount_def getLine_def d1)
  have T1: "getTask ?ed1 (int 0) = Some ?T0"
    by (simp add: getTask_def isBulletTask_def lastLine_def lineCount_def getLine_def
      indentLevel_def leadingTabs_def tab_def findParents.simps newTask_def d1)
  have h1: "findLine ?ed1 ''# History'' (int 0 + 1) = int 1"
    by (simp add: findLine.simps lineCount_def getLine_def d1)
  have t1: "findLine ?ed1 (''## '' @ getLocalDateString ?now) (int 1 + 1) = int 2"
    by (simp add: findLine.simps lineCount_def getLine_def d1 today_2026_11_03)
  have m1: "matchParents ?ed1 (parents (markAsCompleted ?T0)) 0 (int 2 + 1) = (3, 0)"
    by (simp add: matchParents.simps mc)
  have s1: "skipToEnd ?ed1 (task (markAsCompleted ?T0)) 0 3 = int 4"
    by (simp add: skipToEnd.simps mc isArchiveTask_def isBullet_def isBulletTask_def
        lastLine_def lineCount_def getLine_def d1 indentLevel_def leadingTabs_def tab_def
        isSameTask_def stripTask_def trim_def isWhiteSpace_def)
  have o1: "\<not> (indentLevel ?ed1 (int 4) = 0
        \<and> isSameTask (getLine ?ed1 (int 4)) (task (markAsCompleted ?T0)))"
    by (simp add: mc lineCount_def getLine_def d1 isSameTask_def stripTask_def trim_def
        isWhiteSpace_def)
  have "doc (completeTask ?now ?ed1)
      = [[], ''# History'', ''## 2026-11-03'', ''- [/] X'', ''- [x] X'']"
    unfolding completeTask_def
    using archiveTask_inserts [where c = True, OF wf1 c1 tk1 T1 _ h1 t1 m1 s1 o1]
    by (simp add: mc d1)
  then show ?thesis using d1 by simp
qed

text \<open>
  C2. The worked example: in the document of the two lines \<open>- [ ] A\<close> and (indented by
  a tab) \<open>- [ ] B\<close>, with the cursor on line 1 and no History heading, Complete Task
  gives a document that ends in \<open># History\<close>, \<open>## today\<close>, \<open>- A\<close> and the indented
  \<open>- [x] B\<close>, and line 1 is gone from the top. This holds on every date, for every
  column of the cursor.
\<close>

theorem worked_example:
  "doc (completeTask now \<lparr>doc = [''- [ ] A'', tab # ''- [ ] B''],
          cursor = \<lparr>line = 1, ch = c\<rparr>, applied = a, cursorAfter = m\<rparr>)
     = [''- [ ] A'', ''# History'', ''## '' @ getLocalDateString now, ''- A'', tab # ''- [x] B'']"
proof -
  let ?ed = "\<lparr>doc = [''- [ ] A'', tab # ''- [ ] B''], cursor = \<lparr>line = 1, ch = c\<rparr>, applied = a, cursorAfter = m\<rparr>"
  have wf: "wellFormed ?ed" by (simp add: wellFormed_def newline_def tab_def)
  have tk: "isBulletTask ?ed (int 1)"
    by (simp add: isBulletTask_def lastLine_def lineCount_def getLine_def tab_def)
  have noh: "findLine ?ed ''# History'' (int 1 + 1) = -1"
    by (rule findLine_pastEnd) (simp add: lineCount_def)
  have T0: "getTask ?ed (int 1) = Some \<lparr>parents = [''- A''], task = tab # ''- [ ] B'', children = []\<rparr>"
    using example_getTask [of c a m] by simp
  have m: "markAsCompleted \<lparr>parents = [''- A''], task = tab # ''- [ ] B'', children = []\<rparr>
     = \<lparr>parents = [''- A''], task = tab # ''- [x] B'', children = []\<rparr>"
    by (simp add: markAsCompleted_def replaceBulletTask_def isWhiteSpace_def tab_def)
  show ?thesis
    unfolding completeTask_def
    using archiveTask_creates_history [OF wf _ tk noh T0 refl, of now] m
    by simp
qed

text \<open>
  C3. \<open>isSameTask\<close> compares two lines after stripping the surrounding white space and
  one leading marker among \<open>- [ ]\<close>, \<open>- [x]\<close> and \<open>-\<close>: it holds exactly when the normal
  forms of the specification are equal. The line \<open>- [ ] Buy milk\<close> is the same task as
  the indented, checked \<open>- [x] Buy milk\<close>, and is not the same task as
  \<open>- [ ] Buy bread\<close>.
\<close>

theorem isSameTask_normalised:
  "(\<forall>a b. isSameTask a b = (normalisedBySpec a = normalisedBySpec b))
   \<and> isSameTask ''- [ ] Buy milk'' ''  - [x] Buy milk''
   \<and> \<not> isSameTask ''- [ ] Buy milk'' ''- [ ] Buy bread''"
proof -
  have "\<And>a. stripTask a = normalisedBySpec a"
    by (simp add: stripTask_def normalisedBySpec_def eval_nat_numeral)
  moreover have "stripTask ''- [ ] Buy milk'' = ''Buy milk''"
    "stripTask ''  - [x] Buy milk'' = ''Buy milk''"
    "stripTask ''- [ ] Buy bread'' = ''Buy bread''"
    by (simp_all add: stripTask_def trim_def isWhiteSpace_def)
  ultimately show ?thesis by (simp add: isSameTask_def)
qed






text \<open>
  C6. For a task on line \<open>n\<close>, \<open>getTask\<close> returns the task built from the texts of lines
  \<open>qs\<close>, outermost first: the lines \<open>qs\<close> come in document order, above \<open>n\<close>, each the nearest
  line above the next with less indentation, a task, and indented exactly one level less,
  so the indentation rises by one along the chain and ends one below the task's. When
  the chain is shorter than the task's indentation, the resolution stopped above its
  outermost line for one of the three reasons of the specification; in every case a task
  is returned.
\<close>

theorem getTask_ancestors:
  assumes "isBulletTask ed n"
  shows "\<exists>qs. getTask ed n = Some (newTask (map (getLine ed) qs) (getLine ed n) [])
      \<and> ancestorChain ed n (rev qs)
      \<and> sorted_wrt (<) (qs @ [n])
      \<and> map (indentLevel ed) qs = [indentLevel ed n - length qs ..< indentLevel ed n]
      \<and> (length qs < indentLevel ed n \<longrightarrow> resolutionStops ed (hd (qs @ [n])))"
  by (rule getTask_chain [OF assms])

theorem getTask_ancestors_witness:
  "isBulletTask \<lparr>doc = [tab # ''- [ ] B'', tab # tab # ''- [ ] C''],
       cursor = \<lparr>line = 1, ch = 0\<rparr>, applied = [], cursorAfter = cursorToStart\<rparr> 1
   \<and> getTask \<lparr>doc = [tab # ''- [ ] B'', tab # tab # ''- [ ] C''],
       cursor = \<lparr>line = 1, ch = 0\<rparr>, applied = [], cursorAfter = cursorToStart\<rparr> 1
       = Some \<lparr>parents = [tab # ''- B''], task = tab # tab # ''- [ ] C'', children = []\<rparr>
   \<and> indentLevel \<lparr>doc = [tab # ''- [ ] B'', tab # tab # ''- [ ] C''],
       cursor = \<lparr>line = 1, ch = 0\<rparr>, applied = [], cursorAfter = cursorToStart\<rparr> 1 = 2
   \<and> ancestorChain \<lparr>doc = [tab # ''- [ ] B'', tab # tab # ''- [ ] C''],
       cursor = \<lparr>line = 1, ch = 0\<rparr>, applied = [], cursorAfter = cursorToStart\<rparr> 1 [0]
   \<and> resolutionStops \<lparr>doc = [tab # ''- [ ] B'', tab # tab # ''- [ ] C''],
       cursor = \<lparr>line = 1, ch = 0\<rparr>, applied = [], cursorAfter = cursorToStart\<rparr> 0"
proof -
  let ?ed = "\<lparr>doc = [tab # ''- [ ] B'', tab # tab # ''- [ ] C''],
       cursor = \<lparr>line = 1, ch = 0\<rparr>, applied = [], cursorAfter = cursorToStart\<rparr>"
  let ?raw = "\<lparr>parents = [tab # ''- B''], task = tab # tab # ''- [ ] C'', children = []\<rparr>"
  have t: "isBulletTask ?ed 1"
    by (simp add: isBulletTask_def lastLine_def lineCount_def getLine_def tab_def)
  have g: "getLine ?ed 1 = tab # tab # ''- [ ] C''" by (simp add: getLine_def lineCount_def)
  have i: "indentLevel ?ed 1 = 2"
    by (simp add: indentLevel_def leadingTabs_def g) (simp add: tab_def)
  have raw: "getTask ?ed 1 = Some ?raw"
    by (simp add: getTask_def isBulletTask_def lastLine_def lineCount_def getLine_def
      indentLevel_def leadingTabs_def tab_def findParents.simps skipUp.simps newTask_def
      replaceBulletTask_def isWhiteSpace_def)
  from getTask_ancestors [OF t] obtain qs where qs:
    "getTask ?ed 1 = Some (newTask (map (getLine ?ed) qs) (getLine ?ed 1) [])"
    "ancestorChain ?ed 1 (rev qs)" "sorted_wrt (<) (qs @ [1])"
    "length qs < indentLevel ?ed 1 \<longrightarrow> resolutionStops ?ed (hd (qs @ [1]))"
    by blast
  have "parents (newTask (map (getLine ?ed) qs) (getLine ?ed 1) []) = parents ?raw"
    using qs(1) raw by simp
  then have "length qs = 1"
    using arg_cong [of _ _ length] by (fastforce simp: newTask_def)
  then obtain q where q: "qs = [q]" by (cases qs) auto
  have "q < 1" using qs(3) q by simp
  moreover have "0 \<le> q" using qs(2) q by (simp add: nearestShallower_def)
  ultimately have "q = 0" by simp
  then have "ancestorChain ?ed 1 [0]" "resolutionStops ?ed 0"
    using qs(2,4) q i by simp_all
  then show ?thesis using t raw i by blast
qed

text \<open>
  C7. The constructor of \<open>Task\<close> should turn every parent that starts with a checklist
  marker, unchecked or checked, into a plain bullet. The code rewrites the unchecked
  marker only: a checked parent \<open>- [x] A\<close> stays as it is, in the constructor and so in
  the task that \<open>getTask\<close> builds for a subtask of a checked parent.
\<close>

theorem checked_parent_kept:
  "parents (newTask [''- [x] A''] t cs) = [''- [x] A'']
   \<and> getTask \<lparr>doc = [''- [x] A'', tab # ''- [ ] B''], cursor = \<lparr>line = 1, ch = 0\<rparr>,
                applied = [], cursorAfter = m\<rparr> 1
       = Some \<lparr>parents = [''- [x] A''], task = tab # ''- [ ] B'', children = []\<rparr>"
  by (simp add: getTask_def isBulletTask_def lastLine_def lineCount_def getLine_def
      indentLevel_def leadingTabs_def tab_def findParents.simps skipUp.simps newTask_def
      replaceBulletTask_def isWhiteSpace_def)

text \<open>
  C8. When the cursor is on a task line, Complete Task and Progress Task hand the editor
  exactly one transaction. Its batch holds all the changes made, in the order they were
  made: the heading \<open># History\<close> when it was missing, then today's heading and the
  rendered task, or the one change made inside today's subsection, and last, for Complete
  Task, the deletion of the source line. The document afterwards is that batch applied to
  the document before, nothing else of the editor changes, and the cursor afterwards is
  the cursor before, wherever the transaction left it.
\<close>

theorem one_transaction_of_all_changes:
  assumes tk: "isBulletTask ed (line (cursor ed))"
    and T0: "getTask ed (line (cursor ed)) = Some T0"
  shows "(if c then completeTask now ed else progressTask now ed) =
     (let t = line (cursor ed);
          T = (if c then markAsCompleted T0 else markAsInProgress T0);
          h = findLine ed ''# History'' (t + 1);
          hl = (if h = -1 then lineCount ed else h);
          created = (if h = -1
            then [\<lparr>chText = newline # ''# History'',
                    chFrom = lineEndPosition ed (lastLine ed), chTo = None\<rparr>]
            else []);
          d = findLine ed (''## '' @ getLocalDateString now) (hl + 1);
          archive = (if d = -1
            then created @
                 [\<lparr>chText = newline # ''## '' @ getLocalDateString now,
                    chFrom = lineEndPosition ed hl, chTo = None\<rparr>,
                  \<lparr>chText = newline # toString T 0,
                    chFrom = lineEndPosition ed hl, chTo = None\<rparr>]
            else changes (archiveInToday T d \<lparr>editor = ed, changes = created\<rparr>));
          batch = archive @ (if c
            then [\<lparr>chText = [],
                    chFrom = (if t = 0 then lineStartPosition 0
                              else lineEndPosition ed (t - 1)),
                    chTo = Some (lineEndPosition ed t)\<rparr>]
            else [])
      in ed\<lparr>doc := applyAll batch (doc ed), applied := batch # applied ed\<rparr>)
   \<and> (\<exists>cs. cs \<noteq> [] \<and> applied (if c then completeTask now ed else progressTask now ed)
          = cs # applied ed)
   \<and> cursor (if c then completeTask now ed else progressTask now ed) = cursor ed"
proof -
  have ne: "changes (archiveInToday T d md) \<noteq> []" for T d md
    by (simp add: archiveInToday_def replaceLine_def appendAfterLine_def Let_def
        split: prod.split)
  have eq: "(if c then completeTask now ed else progressTask now ed) = archiveTask now c ed"
    by (simp add: completeTask_def progressTask_def)
  show ?thesis
    unfolding eq using assms ne
    by (simp add: archiveTask_def Let_def getCursor_def setCursor_def applyChanges_def
        transaction_def deleteLine_def appendAfterLine_def appendToEnd_def
        archiveInToday_editor newMarkdown_def)
qed

theorem one_transaction_of_all_changes_witness:
  "isBulletTask \<lparr>doc = [''- [ ] A'', tab # ''- [ ] B''], cursor = \<lparr>line = 1, ch = 3\<rparr>,
       applied = [], cursorAfter = cursorToStart\<rparr> 1
   \<and> getTask \<lparr>doc = [''- [ ] A'', tab # ''- [ ] B''], cursor = \<lparr>line = 1, ch = 3\<rparr>,
       applied = [], cursorAfter = cursorToStart\<rparr> 1
       = Some \<lparr>parents = [''- A''], task = tab # ''- [ ] B'', children = []\<rparr>
   \<and> applied (completeTask \<lparr>fullYear = 2026, month = 10, date = 3\<rparr>
        \<lparr>doc = [''- [ ] A'', tab # ''- [ ] B''], cursor = \<lparr>line = 1, ch = 3\<rparr>,
         applied = [], cursorAfter = cursorToStart\<rparr>)
       = [[\<lparr>chText = newline # ''# History'', chFrom = \<lparr>line = 1, ch = 8\<rparr>, chTo = None\<rparr>,
           \<lparr>chText = newline # ''## 2026-11-03'', chFrom = \<lparr>line = 2, ch = 0\<rparr>,
              chTo = None\<rparr>,
           \<lparr>chText = newline # ''- A'' @ newline # tab # ''- [x] B'',
              chFrom = \<lparr>line = 2, ch = 0\<rparr>, chTo = None\<rparr>,
           \<lparr>chText = [], chFrom = \<lparr>line = 0, ch = 7\<rparr>,
              chTo = Some \<lparr>line = 1, ch = 8\<rparr>\<rparr>]]
   \<and> cursor (completeTask \<lparr>fullYear = 2026, month = 10, date = 3\<rparr>
        \<lparr>doc = [''- [ ] A'', tab # ''- [ ] B''], cursor = \<lparr>line = 1, ch = 3\<rparr>,
         applied = [], cursorAfter = cursorToStart\<rparr>)
       = \<lparr>line = 1, ch = 3\<rparr>"
proof -
  let ?ed = "\<lparr>doc = [''- [ ] A'', tab # ''- [ ] B''], cursor = \<lparr>line = 1, ch = 3\<rparr>,
       applied = [], cursorAfter = cursorToStart\<rparr>"
  let ?T0 = "\<lparr>parents = [''- A''], task = tab # ''- [ ] B'', children = []\<rparr>"
  have tk: "isBulletTask ?ed (line (cursor ?ed))"
    by (simp add: isBulletTask_def lastLine_def lineCount_def getLine_def tab_def)
  have T0: "getTask ?ed (line (cursor ?ed)) = Some ?T0"
    using example_getTask [of 3 "[]" cursorToStart] by simp
  have h: "findLine ?ed ''# History'' 2 = -1" "findLine ?ed ''## 2026-11-03'' 3 = -1"
    by (rule findLine_pastEnd, simp add: lineCount_def)+
  have m: "markAsCompleted ?T0 = \<lparr>parents = [''- A''], task = tab # ''- [x] B'', children = []\<rparr>"
    by (simp add: markAsCompleted_def replaceBulletTask_def isWhiteSpace_def tab_def)
  have ts: "toString \<lparr>parents = [''- A''], task = tab # ''- [x] B'', children = []\<rparr> 0
      = ''- A'' @ newline # tab # ''- [x] B''"
    by (simp add: toString_def)
  have le: "lineEndPosition ?ed 0 = \<lparr>line = 0, ch = 7\<rparr>"
    "lineEndPosition ?ed 1 = \<lparr>line = 1, ch = 8\<rparr>"
    "lineEndPosition ?ed 2 = \<lparr>line = 2, ch = 0\<rparr>"
    by (simp_all add: lineEndPosition_def getLine_def lineCount_def)
  have lc: "lineCount ?ed = 2" "lastLine ?ed = 1" by (simp_all add: lineCount_def lastLine_def)
  show ?thesis
    using tk T0 one_transaction_of_all_changes [OF tk T0, of True
        "\<lparr>fullYear = 2026, month = 10, date = 3\<rparr>"]
    by (simp add: Let_def h m ts le lc today_2026_11_03)
qed

text \<open>
  C9. When the line of the cursor contains neither \<open>- [ ] \<close> nor \<open>- [x] \<close>, Complete
  Task and Progress Task do nothing: the editor afterwards is the editor before, with
  the same document and no transaction added, and nothing is raised.
\<close>

theorem not_task_noop:
  assumes "\<not> contains (getLine ed (line (cursor ed))) ''- [ ] ''"
    and "\<not> contains (getLine ed (line (cursor ed))) ''- [x] ''"
  shows "completeTask now ed = ed \<and> progressTask now ed = ed"
  using assms
  by (simp add: completeTask_def progressTask_def archiveTask_def isBulletTask_def getCursor_def)

theorem not_task_noop_witness:
  "completeTask \<lparr>fullYear = 2026, month = 10, date = 3\<rparr>
      \<lparr>doc = [''- [ ] A'', ''notes''], cursor = \<lparr>line = 1, ch = 2\<rparr>, applied = [],
        cursorAfter = cursorToStart\<rparr>
     = \<lparr>doc = [''- [ ] A'', ''notes''], cursor = \<lparr>line = 1, ch = 2\<rparr>, applied = [],
        cursorAfter = cursorToStart\<rparr>
   \<and> progressTask \<lparr>fullYear = 2026, month = 10, date = 3\<rparr>
      \<lparr>doc = [''- [ ] A'', ''notes''], cursor = \<lparr>line = 1, ch = 2\<rparr>, applied = [],
        cursorAfter = cursorToStart\<rparr>
     = \<lparr>doc = [''- [ ] A'', ''notes''], cursor = \<lparr>line = 1, ch = 2\<rparr>, applied = [],
        cursorAfter = cursorToStart\<rparr>"
  by (rule not_task_noop) (simp_all add: getLine_def lineCount_def)

text \<open>
  C10. When the only line \<open># History\<close> of the document is at or above the task line, an
  archive invocation does not use it: the search starts below the task, so a new
  \<open># History\<close> heading, today's heading and the rendered task are appended at the end of
  the document, which then holds two \<open># History\<close> headings.
\<close>

theorem history_above_task_not_reused:
  assumes wf: "wellFormed ed" and cur: "line (cursor ed) = int t"
    and tk: "isBulletTask ed (int t)"
    and T0: "getTask ed (int t) = Some T0"
    and T: "T = (if c then markAsCompleted T0 else markAsInProgress T0)"
    and h: "h \<le> t" "doc ed ! h = ''# History''"
    and only: "\<forall>j<length (doc ed). doc ed ! j = ''# History'' \<longrightarrow> j = h"
  shows "doc (archiveTask now c ed)
           = (if c then take t (doc ed) @ drop (Suc t) (doc ed) else doc ed)
             @ [''# History'', ''## '' @ getLocalDateString now] @ parents T @ [task T]
         \<and> filter (\<lambda>l. l = ''# History'') (doc (archiveTask now c ed))
           = [''# History'', ''# History'']"
proof -
  let ?H = "''# History''"
  let ?ls = "doc ed"
  note tin = isBulletTask_inDoc [OF tk]
  have nb: "\<not> contains ?H ''- ''" by simp
  have tH: "?ls ! t \<noteq> ?H"
    using tk tin(3) by (auto simp: isBulletTask_def)
  then have ht: "h < t" using h by (cases "h = t") auto
  have noh: "findLine ed ?H (int t + 1) = -1"
  proof (rule findLine_absent, intro allI impI)
    fix j assume j: "int t + 1 \<le> j \<and> j < lineCount ed"
    then have "nat j < length ?ls" "nat j \<noteq> h" using ht by (auto simp: lineCount_def)
    then have "?ls ! nat j \<noteq> ?H" using only by blast
    then show "getLine ed j \<noteq> ?H" using j by (simp add: getLine_def)
  qed
  have d: "doc (archiveTask now c ed)
           = (if c then take t ?ls @ drop (Suc t) ?ls else ?ls)
             @ [?H, ''## '' @ getLocalDateString now] @ parents T @ [task T]"
    using archiveTask_creates_history [OF wf cur tk noh T0 T, of now] ht by simp
  have one: "filter (\<lambda>l. l = ?H) ?ls = [?H]"
    by (rule filter_unique [OF _ h(2) only]) (use ht tin(1) in simp)
  have "?ls = take t ?ls @ ?ls ! t # drop (Suc t) ?ls"
    by (rule id_take_nth_drop [OF tin(1)])
  then have "filter (\<lambda>l. l = ?H) ?ls
      = filter (\<lambda>l. l = ?H) (take t ?ls @ ?ls ! t # drop (Suc t) ?ls)"
    by (rule arg_cong)
  also have "\<dots> = filter (\<lambda>l. l = ?H) (take t ?ls @ drop (Suc t) ?ls)"
    using tH by simp
  finally have removed: "filter (\<lambda>l. l = ?H) (take t ?ls @ drop (Suc t) ?ls) = [?H]"
    using one by simp
  have "filter (\<lambda>l. l = ?H) (parents T) = []"
    using marked_facts(1) [OF tk T0 T] nb
    by (auto simp: filter_empty_conv list_all_iff simp del: contains.simps)
  moreover have "task T \<noteq> ?H" using marked_facts(2) [OF tk T0 T] nb by auto
  moreover have "''## '' @ getLocalDateString now \<noteq> ?H" by simp
  ultimately have "filter (\<lambda>l. l = ?H) (doc (archiveTask now c ed)) = [?H, ?H]"
    unfolding d using one removed by (simp del: contains.simps)
  then show ?thesis using d by simp
qed

theorem history_above_task_not_reused_witness:
  "wellFormed \<lparr>doc = [''# History'', ''- [ ] X''], cursor = \<lparr>line = 1, ch = 0\<rparr>,
       applied = [], cursorAfter = cursorToStart\<rparr>
   \<and> isBulletTask \<lparr>doc = [''# History'', ''- [ ] X''], cursor = \<lparr>line = 1, ch = 0\<rparr>,
       applied = [], cursorAfter = cursorToStart\<rparr> 1
   \<and> [''# History'', ''- [ ] X''] ! 0 = ''# History''
   \<and> doc (archiveTask \<lparr>fullYear = 2026, month = 10, date = 3\<rparr> True
        \<lparr>doc = [''# History'', ''- [ ] X''], cursor = \<lparr>line = 1, ch = 0\<rparr>,
         applied = [], cursorAfter = cursorToStart\<rparr>)
       = [''# History'', ''# History'', ''## 2026-11-03'', ''- [x] X'']
   \<and> filter (\<lambda>l. l = ''# History'')
        (doc (archiveTask \<lparr>fullYear = 2026, month = 10, date = 3\<rparr> True
          \<lparr>doc = [''# History'', ''- [ ] X''], cursor = \<lparr>line = 1, ch = 0\<rparr>,
           applied = [], cursorAfter = cursorToStart\<rparr>))
       = [''# History'', ''# History'']"
proof -
  let ?ed = "\<lparr>doc = [''# History'', ''- [ ] X''], cursor = \<lparr>line = 1, ch = 0\<rparr>,
       applied = [], cursorAfter = cursorToStart\<rparr>"
  let ?T0 = "\<lparr>parents = [], task = ''- [ ] X'', children = []\<rparr>"
  have wf: "wellFormed ?ed" by (simp add: wellFormed_def newline_def)
  have cur: "line (cursor ?ed) = int 1" by simp
  have tk: "isBulletTask ?ed (int 1)"
    by (simp add: isBulletTask_def lastLine_def lineCount_def getLine_def)
  have T0: "getTask ?ed (int 1) = Some ?T0"
    by (simp add: getTask_def isBulletTask_def lastLine_def lineCount_def getLine_def
      indentLevel_def leadingTabs_def tab_def findParents.simps newTask_def)
  have m: "markAsCompleted ?T0 = \<lparr>parents = [], task = ''- [x] X'', children = []\<rparr>"
    by (simp add: markAsCompleted_def replaceBulletTask_def isWhiteSpace_def)
  have T: "markAsCompleted ?T0 = (if True then markAsCompleted ?T0 else markAsInProgress ?T0)"
    by simp
  have h: "0 \<le> (1::nat)" "doc ?ed ! 0 = ''# History''" by simp_all
  have only: "\<forall>j<length (doc ?ed). doc ?ed ! j = ''# History'' \<longrightarrow> j = 0"
    by (simp add: less_Suc_eq)
  show ?thesis
    using wf tk history_above_task_not_reused [OF wf cur tk T0 T h only,
        of "\<lparr>fullYear = 2026, month = 10, date = 3\<rparr>"]
    by (simp add: m today_2026_11_03)
qed

end
